theory Spec2Isabelle
  imports Main "HOL-Library.AList" "HOL-Library.While_Combinator" "HOL-Library.Sublist"
begin

section \<open>Python lists and dicts\<close>

text \<open>
  The containers of \<^verbatim>\<open>libs/sequential_sets_v169.py\<close> keep a Python list
  (\<^verbatim>\<open>values\<close>) and a Python dict (\<^verbatim>\<open>indexes\<close>). Positions are Python
  ints: a negative position counts from the end, \<^verbatim>\<open>xs[i]\<close> and \<^verbatim>\<open>xs.pop(i)\<close> raise
  IndexError out of range, \<^verbatim>\<open>xs.insert(i, v)\<close> and \<^verbatim>\<open>xs[i:]\<close> clamp.
  A dict is an association list with distinct keys in insertion order
  (\<open>AList.update\<close> overwrites in place or appends, as a dict assignment does).
\<close>

type_synonym ('k, 'v) dict = "('k \<times> 'v) list"

definition norm_index :: "'a list \<Rightarrow> int \<Rightarrow> nat option" where
  "norm_index xs i =
     (let n = int (length xs); j = (if i < 0 then i + n else i)
      in if 0 \<le> j \<and> j < n then Some (nat j) else None)"

definition clamp_index :: "'a list \<Rightarrow> int \<Rightarrow> nat" where
  "clamp_index xs i =
     (let n = int (length xs); j = (if i < 0 then i + n else i)
      in if j < 0 then 0 else if n < j then length xs else nat j)"

definition list_pop :: "'a list \<Rightarrow> int \<Rightarrow> ('a \<times> 'a list) option" where
  "list_pop xs i = map_option (\<lambda>k. (xs ! k, take k xs @ drop (Suc k) xs)) (norm_index xs i)"

definition list_set :: "'a list \<Rightarrow> int \<Rightarrow> 'a \<Rightarrow> 'a list option" where
  "list_set xs i v = map_option (\<lambda>k. xs[k := v]) (norm_index xs i)"

definition list_insert :: "'a list \<Rightarrow> int \<Rightarrow> 'a \<Rightarrow> 'a list" where
  "list_insert xs i v = (let k = clamp_index xs i in take k xs @ v # drop k xs)"

definition slice_from :: "'a list \<Rightarrow> int \<Rightarrow> 'a list" where
  "slice_from xs i = drop (clamp_index xs i) xs"

definition enumerate_from :: "int \<Rightarrow> 'a list \<Rightarrow> (int \<times> 'a) list" where
  "enumerate_from i xs = zip (map (\<lambda>k. i + int k) [0..<length xs]) xs"

definition dict_get :: "('k, 'v) dict \<Rightarrow> 'k \<Rightarrow> 'v \<Rightarrow> 'v" where
  "dict_get d k dflt = (case map_of d k of None \<Rightarrow> dflt | Some v \<Rightarrow> v)"

definition dict_contains :: "('k, 'v) dict \<Rightarrow> 'k \<Rightarrow> bool" where
  "dict_contains d k = (map_of d k \<noteq> None)"

text \<open>\<^verbatim>\<open>list(dict.fromkeys(iterable))\<close>: the first occurrence of every value, in order.\<close>

definition dict_fromkeys :: "'a list \<Rightarrow> 'a list" where
  "dict_fromkeys xs = fold (\<lambda>x acc. if x \<in> set acc then acc else acc @ [x]) xs []"

section \<open>Sequential sets\<close>

datatype set_error =
    IndexError
  | KeyError
  | ValueError_already_in_set
  | ValueError_prohibited_to_modify

record 'a sequential_set =
  vals :: "'a list"
  indexes :: "('a, int) dict"

record 'a hashable_set = "'a sequential_set" +
  hash :: "int option"

text \<open>\<^verbatim>\<open>SequentialSet.__init__\<close>, and \<^verbatim>\<open>HashableSequentialSet.__init__\<close>, which
  \<^verbatim>\<open>DynSet\<close> inherits (\<^verbatim>\<open>MutableSequentialSet\<close> defines none, and
  \<^verbatim>\<open>HashableSequentialSet\<close> is the next class in the method resolution order).\<close>

definition enumerate_indexes :: "'a list \<Rightarrow> ('a, int) dict" where
  "enumerate_indexes vs = fold (\<lambda>(i, v) d. AList.update v i d) (enumerate_from 0 vs) []"

definition SequentialSet :: "'a list \<Rightarrow> 'a sequential_set" where
  "SequentialSet iterable =
     (let vs = dict_fromkeys iterable in \<lparr>vals = vs, indexes = enumerate_indexes vs\<rparr>)"

definition HashableSequentialSet :: "'a list \<Rightarrow> 'a hashable_set" where
  "HashableSequentialSet iterable =
     (let vs = dict_fromkeys iterable
      in \<lparr>vals = vs, indexes = enumerate_indexes vs, hash = None\<rparr>)"

definition DynSet :: "'a list \<Rightarrow> 'a hashable_set" where
  "DynSet iterable =
     (let vs = dict_fromkeys iterable
      in \<lparr>vals = vs, indexes = enumerate_indexes vs, hash = None\<rparr>)"

definition contains :: "('a, 'z) sequential_set_scheme \<Rightarrow> 'a \<Rightarrow> bool" where
  "contains s element = dict_contains (indexes s) element"

definition iter :: "('a, 'z) sequential_set_scheme \<Rightarrow> 'a list" where
  "iter s = vals s"

text \<open>\<^verbatim>\<open>SequentialSet.index\<close>; \<open>stop = None\<close> is the omitted argument.\<close>

definition index :: "('a, 'z) sequential_set_scheme \<Rightarrow> 'a \<Rightarrow> int \<Rightarrow> int option \<Rightarrow> int" where
  "index s v start stop =
     (let real_stop = (case stop of Some st \<Rightarrow> st | None \<Rightarrow> 2 ^ 30);
          i = dict_get (indexes s) v (- 1)
      in if i \<noteq> - 1 \<and> start \<le> i \<and> i < real_stop then i else - 1)"

text \<open>\<^verbatim>\<open>HashableSequentialSet.__hash__\<close>; \<open>h\<close> is Python's \<^verbatim>\<open>hash\<close> on the elements.\<close>

definition hash_set :: "('a \<Rightarrow> int) \<Rightarrow> 'a hashable_set \<Rightarrow> int \<times> 'a hashable_set" where
  "hash_set h s =
     (case hash s of
        None \<Rightarrow> (let v = sum_list (map h (vals s)) in (v, s\<lparr>hash := Some v\<rparr>))
      | Some v \<Rightarrow> (v, s))"

subsection \<open>MutableSequentialSet\<close>

text \<open>
  Every method returns its outcome (the exception raised, or the value returned) and the
  set as the call leaves it: an exception raised after a first assignment leaves the
  set half-updated, and the model keeps that. The positions are ints, so the
  \<^verbatim>\<open>TypeError\<close> branches for slices have no counterpart.
\<close>

definition reindex :: "('a, int) dict \<Rightarrow> (int \<times> 'a) list \<Rightarrow> ('a, int) dict" where
  "reindex d ps = fold (\<lambda>(i, v) d. AList.update v i d) ps d"

definition delitem ::
  "('a, 'z) sequential_set_scheme \<Rightarrow> int \<Rightarrow> (set_error + unit) \<times> ('a, 'z) sequential_set_scheme"
where
  "delitem s i =
     (case list_pop (vals s) i of
        None \<Rightarrow> (Inl IndexError, s)
      | Some (v, vs) \<Rightarrow>
          if \<not> dict_contains (indexes s) v then (Inl KeyError, s\<lparr>vals := vs\<rparr>)
          else (Inr (), s\<lparr>vals := vs,
                  indexes := reindex (AList.delete v (indexes s))
                               (enumerate_from i (slice_from vs i))\<rparr>))"

definition setitem ::
  "('a, 'z) sequential_set_scheme \<Rightarrow> int \<Rightarrow> 'a \<Rightarrow>
     (set_error + unit) \<times> ('a, 'z) sequential_set_scheme"
where
  "setitem s i new_value =
     (case norm_index (vals s) i of
        None \<Rightarrow> (Inl IndexError, s)
      | Some k \<Rightarrow>
          (let old_value = vals s ! k
           in if new_value = old_value then (Inr (), s)
              else if dict_contains (indexes s) new_value
                then (Inl ValueError_already_in_set, s)
              else if \<not> dict_contains (indexes s) old_value then (Inl KeyError, s)
              else (Inr (), s\<lparr>vals := (vals s)[k := new_value],
                      indexes := AList.update new_value i
                                   (AList.delete old_value (indexes s))\<rparr>)))"

definition insert_at ::
  "('a, 'z) sequential_set_scheme \<Rightarrow> int \<Rightarrow> 'a \<Rightarrow>
     (set_error + unit) \<times> ('a, 'z) sequential_set_scheme"
where
  "insert_at s i v =
     (if dict_contains (indexes s) v then (Inl ValueError_already_in_set, s)
      else (let vs = list_insert (vals s) i v
            in (Inr (), s\<lparr>vals := vs,
                  indexes := reindex (indexes s) (enumerate_from i (slice_from vs i))\<rparr>)))"

definition add :: "('a, 'z) sequential_set_scheme \<Rightarrow> 'a \<Rightarrow> ('a, 'z) sequential_set_scheme" where
  "add s v =
     (if \<not> dict_contains (indexes s) v
      then s\<lparr>vals := vals s @ [v], indexes := AList.update v (int (length (vals s))) (indexes s)\<rparr>
      else s)"

definition push ::
  "('a, 'z) sequential_set_scheme \<Rightarrow> 'a \<Rightarrow> int \<times> ('a, 'z) sequential_set_scheme"
where
  "push s element =
     (let i = dict_get (indexes s) element (int (length (indexes s)))
      in if i = int (length (vals s))
         then (i, s\<lparr>vals := vals s @ [element], indexes := AList.update element i (indexes s)\<rparr>)
         else (i, s))"

definition update :: "('a, 'z) sequential_set_scheme \<Rightarrow> 'a list \<Rightarrow> ('a, 'z) sequential_set_scheme" where
  "update s elements = fold (\<lambda>v s. add s v) elements s"

definition remove ::
  "('a, 'z) sequential_set_scheme \<Rightarrow> 'a \<Rightarrow> (set_error + unit) \<times> ('a, 'z) sequential_set_scheme"
where
  "remove s v =
     (case map_of (indexes s) v of
        None \<Rightarrow> (Inl KeyError, s)
      | Some i \<Rightarrow>
          (let idx = AList.delete v (indexes s)
           in case list_pop (vals s) (- 1) of
                None \<Rightarrow> (Inl IndexError, s\<lparr>indexes := idx\<rparr>)
              | Some (filler, vs) \<Rightarrow>
                  if i < int (length idx)
                  then (case list_set vs i filler of
                          None \<Rightarrow> (Inl IndexError, s\<lparr>vals := vs, indexes := idx\<rparr>)
                        | Some vs' \<Rightarrow>
                            (Inr (), s\<lparr>vals := vs', indexes := AList.update filler i idx\<rparr>))
                  else (Inr (), s\<lparr>vals := vs, indexes := idx\<rparr>)))"

definition discard ::
  "('a, 'z) sequential_set_scheme \<Rightarrow> 'a \<Rightarrow> (set_error + unit) \<times> ('a, 'z) sequential_set_scheme"
where
  "discard s v = (if dict_contains (indexes s) v then remove s v else (Inr (), s))"

text \<open>\<^verbatim>\<open>SequentialSet.freeze\<close>: a \<^verbatim>\<open>DynSet\<close> is an instance of
  \<^verbatim>\<open>HashableSequentialSet\<close>, so the first branch returns the set itself; a
  \<^verbatim>\<open>MutableSequentialSet\<close> is copied into a \<^verbatim>\<open>HashableSequentialSet\<close>.\<close>

definition freeze_dyn :: "'a hashable_set \<Rightarrow> 'a hashable_set" where
  "freeze_dyn s = s"

definition freeze_mutable :: "'a sequential_set \<Rightarrow> 'a hashable_set" where
  "freeze_mutable s = HashableSequentialSet (vals s)"

subsection \<open>DynSet\<close>

definition dyn_delitem :: "'a hashable_set \<Rightarrow> int \<Rightarrow> (set_error + unit) \<times> 'a hashable_set" where
  "dyn_delitem s i =
     (if hash s \<noteq> None then (Inl ValueError_prohibited_to_modify, s) else delitem s i)"

definition dyn_setitem ::
  "'a hashable_set \<Rightarrow> int \<Rightarrow> 'a \<Rightarrow> (set_error + unit) \<times> 'a hashable_set"
where
  "dyn_setitem s i new_value = setitem s i new_value"

definition dyn_insert ::
  "'a hashable_set \<Rightarrow> int \<Rightarrow> 'a \<Rightarrow> (set_error + unit) \<times> 'a hashable_set"
where
  "dyn_insert s i v =
     (if hash s \<noteq> None then (Inl ValueError_prohibited_to_modify, s) else insert_at s i v)"

definition dyn_add :: "'a hashable_set \<Rightarrow> 'a \<Rightarrow> (set_error + unit) \<times> 'a hashable_set" where
  "dyn_add s v =
     (if hash s \<noteq> None then (Inl ValueError_prohibited_to_modify, s) else (Inr (), add s v))"

definition dyn_push :: "'a hashable_set \<Rightarrow> 'a \<Rightarrow> (set_error + int) \<times> 'a hashable_set" where
  "dyn_push s element =
     (if hash s \<noteq> None then (Inl ValueError_prohibited_to_modify, s)
      else (let (i, s') = push s element in (Inr i, s')))"

definition dyn_remove :: "'a hashable_set \<Rightarrow> 'a \<Rightarrow> (set_error + unit) \<times> 'a hashable_set" where
  "dyn_remove s v =
     (if hash s \<noteq> None then (Inl ValueError_prohibited_to_modify, s) else remove s v)"

definition dyn_discard :: "'a hashable_set \<Rightarrow> 'a \<Rightarrow> (set_error + unit) \<times> 'a hashable_set" where
  "dyn_discard s v = (if dict_contains (indexes s) v then dyn_remove s v else (Inr (), s))"



section \<open>Rule shorthand: \<^verbatim>\<open>split_str\<close>\<close>

text \<open>
  \<^verbatim>\<open>str.split(sep, maxsplit)\<close> with a separator: the string is cut at each occurrence of
  \<open>sep\<close>, left to right, at most \<open>maxsplit\<close> times when \<open>maxsplit\<close> is not negative; an
  empty separator is a \<^verbatim>\<open>ValueError\<close>, raised before the loop (the loop's own test of
  \<open>sep\<close> only makes its termination evident).
\<close>

text \<open>A symbol is a string, or the null value \<^verbatim>\<open>None\<close>: the nullability marker of the
  prefix sets, the lookahead at the end of the input and the head of the root rule.\<close>

type_synonym symbol = "string option"

text \<open>The exceptions of the grammar code. \<^verbatim>\<open>ValueError_unexpected_token\<close> carries the
  span, the token and the expected tokens of its message.\<close>

datatype parse_error =
    ValueError_empty_separator
  | ValueError_not_enough_values
  | ValueError_unrecognized_token nat
  | ValueError_unexpected_token "nat \<times> nat" symbol "symbol list"
  | AssertionError_conflict
  | IndexError_stack
  | KeyError_gotos
  | AttributeError_span

function split_loop :: "string \<Rightarrow> int \<Rightarrow> string \<Rightarrow> string \<Rightarrow> string list" where
  "split_loop sep maxsplit word [] = [rev word]"
| "split_loop sep maxsplit word (c # cs) =
     (if maxsplit \<noteq> 0 \<and> sep \<noteq> [] \<and> prefix sep (c # cs)
      then rev word # split_loop sep (maxsplit - 1) [] (drop (length sep) (c # cs))
      else split_loop sep maxsplit (c # word) cs)"
  by pat_completeness auto
termination
  by (relation "measure (\<lambda>(sep, maxsplit, word, rest). length rest)") auto

definition str_split :: "string \<Rightarrow> string \<Rightarrow> int \<Rightarrow> parse_error + string list" where
  "str_split string sep maxsplit =
     (if sep = [] then Inl ValueError_empty_separator
      else Inr (split_loop sep maxsplit [] string))"

fun split_str_loop :: "string \<Rightarrow> string list \<Rightarrow> string list \<Rightarrow> string list" where
  "split_str_loop sep [] result = result"
| "split_str_loop sep (word # words) result =
     (if word = [] \<and> result \<noteq> [] \<and> (last result = [] \<or> prefix sep (last result))
      then split_str_loop sep words (butlast result @ [last result @ sep])
      else split_str_loop sep words (result @ [word]))"

definition split_str :: "string \<Rightarrow> string \<Rightarrow> int \<Rightarrow> parse_error + string list" where
  "split_str string sep maxsplit =
     (case str_split string sep maxsplit of
        Inl e \<Rightarrow> Inl e
      | Inr words \<Rightarrow> Inr (split_str_loop sep words []))"

section \<open>Sets of the grammar code\<close>

text \<open>
  \<^verbatim>\<open>libs/syntax_lsp_friendly_v208.py\<close> imports \<^verbatim>\<open>DynSet\<close> as \<^verbatim>\<open>Set\<close>. It builds its sets
  with the constructor, \<^verbatim>\<open>add\<close>, \<^verbatim>\<open>update\<close>, \<^verbatim>\<open>push\<close> and \<^verbatim>\<open>remove\<close>, reads them
  by iteration, \<^verbatim>\<open>in\<close> and \<^verbatim>\<open>len\<close>, and never mutates one that was hashed. Such a set
  is represented here by its list of values; the functions below are what the
  \<^verbatim>\<open>DynSet\<close> methods do to that list (lemmas \<open>vals_add\<close>, \<open>vals_update\<close>, \<open>vals_push\<close>
  and \<open>vals_remove\<close> relate them to the methods on sets that satisfy the invariant).
\<close>

definition oset_add :: "'a list \<Rightarrow> 'a \<Rightarrow> 'a list" where
  "oset_add xs x = (if x \<in> set xs then xs else xs @ [x])"

definition oset_update :: "'a list \<Rightarrow> 'a list \<Rightarrow> 'a list" where
  "oset_update xs elements = fold (\<lambda>v xs. oset_add xs v) elements xs"

fun position :: "('a \<Rightarrow> bool) \<Rightarrow> 'a list \<Rightarrow> nat" where
  "position P [] = 0"
| "position P (y # ys) = (if P y then 0 else Suc (position P ys))"

text \<open>\<^verbatim>\<open>remove\<close> moves the last value into the slot of the removed one.\<close>

definition oset_remove :: "'a list \<Rightarrow> 'a \<Rightarrow> 'a list" where
  "oset_remove xs x =
     (let i = position (\<lambda>y. y = x) xs; filler = last xs; vs = butlast xs
      in if i < length vs then vs[i := filler] else vs)"

text \<open>A set of sets: \<^verbatim>\<open>Set.__eq__\<close> of \<^verbatim>\<open>collections.abc\<close> compares the sizes and then
  tests every element of the one for membership in the other.\<close>

definition oset_eq :: "'a list \<Rightarrow> 'a list \<Rightarrow> bool" where
  "oset_eq a b \<longleftrightarrow> length a = length b \<and> list_all (\<lambda>x. x \<in> set b) a"

definition oset_push :: "'a list list \<Rightarrow> 'a list \<Rightarrow> nat \<times> 'a list list" where
  "oset_push xss element =
     (let i = position (\<lambda>xs. oset_eq xs element) xss
      in if i = length xss then (i, xss @ [element]) else (i, xss))"

section \<open>Grammars\<close>

datatype rule = Rule (head: symbol) (body: "string list")

datatype lr1_item = LR1Item (dot: nat) (rule: rule) (follower: symbol)

definition item_next :: "lr1_item \<Rightarrow> symbol" where
  "item_next item =
     (if dot item < length (body (rule item)) then Some (body (rule item) ! dot item) else None)"

definition tail :: "lr1_item \<Rightarrow> string list" where
  "tail item = drop (dot item + 1) (body (rule item))"

datatype node = Node (name: symbol) (span: "nat \<times> nat") (node_value: "string + node list")

subsection \<open>Scanners\<close>

text \<open>A scanner takes the source and an offset and returns the consumed length;
  \<open>None\<close> is the \<^verbatim>\<open>ValueError\<close> it raises for "no match". Offsets are naturals.\<close>

type_synonym scanner = "string \<Rightarrow> nat \<Rightarrow> int option"

definition slice :: "string \<Rightarrow> nat \<Rightarrow> nat \<Rightarrow> string" where
  "slice source i j = take (j - i) (drop i source)"

definition get_keyword_parser :: "string \<Rightarrow> scanner" where
  "get_keyword_parser keyword source offset =
     (if slice source offset (offset + length keyword) \<noteq> keyword then None
      else Some (int (length keyword)))"

fun count_while :: "(char \<Rightarrow> bool) \<Rightarrow> string \<Rightarrow> nat" where
  "count_while P [] = 0"
| "count_while P (c # cs) = (if P c then Suc (count_while P cs) else 0)"

definition ignore_spaces :: scanner where
  "ignore_spaces source offset =
     Some (int (count_while (\<lambda>c. c \<in> {CHR '' '', CHR 0x09}) (drop offset source)))"

definition ignore_spaces_and_newlines :: scanner where
  "ignore_spaces_and_newlines source offset =
     Some (int (count_while (\<lambda>c. c \<in> {CHR '' '', CHR 0x09, CHR 0x0A}) (drop offset source)))"

definition TOKEN_PARSERS :: "(symbol, scanner) dict" where
  "TOKEN_PARSERS = [(Some [], ignore_spaces), (Some '' '', ignore_spaces_and_newlines)]"

text \<open>\<^verbatim>\<open>parse_identifier\<close> of \<^verbatim>\<open>rat.py\<close>. The second character is tested by an
  \<^verbatim>\<open>if\<close>, not a loop: at most two characters are consumed. A \<open>char\<close> is a code point
  below 256, so a \<open>string\<close> is a Python \<^verbatim>\<open>str\<close> of such code points; \<^verbatim>\<open>str.isalpha\<close> holds
  there for the ASCII letters, the ordinal indicators, the micro sign and the accented
  letters, and \<^verbatim>\<open>str.isalnum\<close> also for the digits, the superscript digits and the vulgar
  fractions. \<^verbatim>\<open>scan_token\<close> calls a scanner only at an offset inside the source, where
  \<^verbatim>\<open>source[offset]\<close> exists.\<close>

definition isalpha :: "char \<Rightarrow> bool" where
  "isalpha c \<longleftrightarrow>
     (let n = of_char c :: nat
      in (65 \<le> n \<and> n \<le> 90) \<or> (97 \<le> n \<and> n \<le> 122) \<or> n = 170 \<or> n = 181 \<or> n = 186 \<or>
         (192 \<le> n \<and> n \<le> 214) \<or> (216 \<le> n \<and> n \<le> 246) \<or> (248 \<le> n \<and> n \<le> 255))"

definition isalnum :: "char \<Rightarrow> bool" where
  "isalnum c \<longleftrightarrow>
     (let n = of_char c :: nat
      in isalpha c \<or> (48 \<le> n \<and> n \<le> 57) \<or> n = 178 \<or> n = 179 \<or> n = 185 \<or>
         (188 \<le> n \<and> n \<le> 190))"

definition parse_identifier :: scanner where
  "parse_identifier source offset =
     (if offset < length source \<and> isalpha (source ! offset)
      then (let i = offset; j = offset + 1;
                j = (if j < length source \<and> (isalnum (source ! j) \<or> source ! j = CHR ''_'')
                     then j + 1 else j)
            in Some (int j - int i))
      else None)"

subsection \<open>Syntax\<close>

record Syntax =
  rule_list :: "rule list"
  token_parsers :: "(symbol, scanner) dict"

definition from_rules :: "rule list \<Rightarrow> (symbol, scanner) dict \<Rightarrow> Syntax" where
  "from_rules rules extra_parsers =
     (let nodes = set (map head rules);
          tokens = dict_fromkeys
            (filter (\<lambda>t. Some t \<notin> nodes) (concat (map body rules)))
      in \<lparr>rule_list = rules,
          token_parsers = map (\<lambda>token.
            (Some token,
             case map_of extra_parsers (Some token) of
               Some scanner \<Rightarrow> scanner
             | None \<Rightarrow>
                 (case map_of TOKEN_PARSERS (Some token) of
                    Some scanner \<Rightarrow> scanner
                  | None \<Rightarrow> get_keyword_parser token))) tokens\<rparr>)"

fun from_description_rule :: "string + rule \<Rightarrow> parse_error + rule" where
  "from_description_rule (Inr r) = Inr r"
| "from_description_rule (Inl text) =
     (case split_str text '' '' (- 1) of
        Inl e \<Rightarrow> Inl e
      | Inr [] \<Rightarrow> Inl ValueError_not_enough_values
      | Inr (h # b) \<Rightarrow> Inr (Rule (Some h) b))"

fun from_description_rules :: "(string + rule) list \<Rightarrow> parse_error + rule list" where
  "from_description_rules [] = Inr []"
| "from_description_rules (r # rs) =
     (case from_description_rule r of
        Inl e \<Rightarrow> Inl e
      | Inr real_rule \<Rightarrow>
          (case from_description_rules rs of
             Inl e \<Rightarrow> Inl e
           | Inr real_rules \<Rightarrow> Inr (real_rule # real_rules)))"

definition from_description ::
  "(string + rule) list \<Rightarrow> (symbol, scanner) dict \<Rightarrow> parse_error + Syntax"
where
  "from_description rules extra_parsers =
     (case from_description_rules rules of
        Inl e \<Rightarrow> Inl e
      | Inr real_rules \<Rightarrow> Inr (from_rules real_rules extra_parsers))"

definition nodes :: "Syntax \<Rightarrow> symbol list" where
  "nodes syn = dict_fromkeys (map head (rule_list syn))"

definition symbols :: "Syntax \<Rightarrow> symbol list" where
  "symbols syn =
     oset_update (dict_fromkeys (concat (map (\<lambda>r. map Some (body r)) (rule_list syn))))
       (nodes syn)"

definition tokens :: "Syntax \<Rightarrow> symbol list" where
  "tokens syn = dict_fromkeys (filter (\<lambda>symbol. symbol \<notin> set (nodes syn)) (symbols syn))"

definition rules :: "Syntax \<Rightarrow> (symbol, rule list) dict" where
  "rules syn =
     fold (\<lambda>r d. AList.update (head r) (oset_add (dict_get d (head r) []) r) d)
       (rule_list syn) (map (\<lambda>node. (node, [])) (nodes syn))"

subsection \<open>Prefixes\<close>

text \<open>
  \<^verbatim>\<open>Syntax.prefixes\<close>. Every head and every body symbol is a key of the table, so no
  lookup of the source can raise \<^verbatim>\<open>KeyError\<close>; a lookup is \<open>dict_get\<close> with the empty
  set for a missing key. Bodies hold strings only, so the test
  \<^verbatim>\<open>body[0] is not None\<close> is always true. The inner \<^verbatim>\<open>for\<close> walks the set of
  \<^verbatim>\<open>body[0]\<close> while the set of \<^verbatim>\<open>node\<close> grows; when both are the same set nothing is
  added, so walking the set as it was before the loop is the same.
\<close>

type_synonym prefix_table = "(symbol, symbol list) dict"

definition exclude_nones :: "symbol list \<Rightarrow> symbol list" where
  "exclude_nones iterable = filter (\<lambda>element. element \<noteq> None) iterable"

definition add_prefix :: "symbol \<Rightarrow> symbol \<Rightarrow> bool \<times> prefix_table \<Rightarrow> bool \<times> prefix_table" where
  "add_prefix node first = (\<lambda>(done, table).
     if first \<notin> set (dict_get table node [])
     then (False, AList.update node (oset_add (dict_get table node []) first) table)
     else (done, table))"

fun scan_body :: "symbol \<Rightarrow> string list \<Rightarrow> bool \<times> prefix_table \<Rightarrow> bool \<times> prefix_table" where
  "scan_body node [] st = add_prefix node None st"
| "scan_body node (b # bs) st =
     (let st' = fold (add_prefix node) (exclude_nones (dict_get (snd st) (Some b) [])) st
      in if None \<notin> set (dict_get (snd st') (Some b) []) then st'
         else scan_body node bs st')"

definition prefixes_init :: "Syntax \<Rightarrow> prefix_table" where
  "prefixes_init syn =
     fold (\<lambda>token d. AList.update token [token] d) (tokens syn)
       (map (\<lambda>node. (node, [])) (nodes syn))"

definition prefixes_pass :: "Syntax \<Rightarrow> prefix_table \<Rightarrow> bool \<times> prefix_table" where
  "prefixes_pass syn table =
     fold (\<lambda>r st. scan_body (head r) (body r) st) (rule_list syn) (True, table)"

definition prefixes :: "Syntax \<Rightarrow> prefix_table" where
  "prefixes syn =
     snd (while (\<lambda>(done, table). \<not> done) (\<lambda>(done, table). prefixes_pass syn table)
            (False, prefixes_init syn))"

fun get_sequence_prefixes :: "prefix_table \<Rightarrow> symbol list \<Rightarrow> symbol list \<Rightarrow> symbol list" where
  "get_sequence_prefixes P [] pre = pre"
| "get_sequence_prefixes P (s # sequence) pre =
     (if None \<in> set pre \<and> s \<noteq> None
      then get_sequence_prefixes P sequence
             (oset_update (oset_remove pre None) (dict_get P s []))
      else pre)"

subsection \<open>Closure, item sets and tables\<close>

text \<open>The memoized properties \<^verbatim>\<open>rules\<close> and \<^verbatim>\<open>prefixes\<close> are passed as \<open>R\<close> and \<open>P\<close>.
  The \<^verbatim>\<open>for\<close> loops over a set that grows while it is walked are loops over a position.\<close>

definition closure_step ::
  "(symbol, rule list) dict \<Rightarrow> prefix_table \<Rightarrow> lr1_item \<Rightarrow> lr1_item list \<Rightarrow> lr1_item list"
where
  "closure_step R P item item_set =
     (let followers = get_sequence_prefixes P (map Some (tail item) @ [follower item]) [None]
      in fold (\<lambda>r item_set.
                 fold (\<lambda>f item_set. oset_add item_set (LR1Item 0 r f))
                   followers item_set)
           (dict_get R (item_next item) []) item_set)"

definition lr1_closure ::
  "(symbol, rule list) dict \<Rightarrow> prefix_table \<Rightarrow> lr1_item list \<Rightarrow> lr1_item list"
where
  "lr1_closure R P core_items =
     snd (while (\<lambda>(i, item_set). i < length item_set)
            (\<lambda>(i, item_set). (Suc i, closure_step R P (item_set ! i) item_set))
            (0, dict_fromkeys core_items))"

type_synonym gotos = "(nat \<times> symbol, nat) dict"

definition goto_step ::
  "nat \<Rightarrow> lr1_item list \<Rightarrow> symbol \<Rightarrow> lr1_item list list \<times> gotos \<Rightarrow> lr1_item list list \<times> gotos"
where
  "goto_step i item_set next_symbol = (\<lambda>(item_sets, gotos).
     (let next_set = dict_fromkeys
            (map (\<lambda>item. LR1Item (dot item + 1) (rule item) (follower item))
               (filter (\<lambda>item. dot item < length (body (rule item)) \<and>
                                Some (body (rule item) ! dot item) = next_symbol) item_set))
      in if next_set \<noteq> []
         then (let (j, item_sets') = oset_push item_sets next_set
               in (item_sets', AList.update (i, next_symbol) j gotos))
         else (item_sets, gotos)))"

definition item_sets_and_gotos ::
  "Syntax \<Rightarrow> (symbol, rule list) dict \<Rightarrow> prefix_table \<Rightarrow> string \<Rightarrow> lr1_item list list \<times> gotos"
where
  "item_sets_and_gotos syn R P root_node =
     (let root_item = LR1Item 0 (Rule None [root_node]) None
      in snd (while (\<lambda>(i, item_sets, gotos). i < length item_sets)
                (\<lambda>(i, item_sets, gotos).
                   (Suc i, fold (goto_step i (lr1_closure R P (item_sets ! i))) (symbols syn)
                             (item_sets, gotos)))
                (0, [[root_item]], [])))"

datatype action = Shift nat | Reduce rule | Accept

type_synonym actions = "(nat \<times> symbol, action) dict"

text \<open>The assignments that \<^verbatim>\<open>LR1Parser.actions\<close> makes for state \<open>i\<close>, in the order in
  which it makes them. A goto to state 0 is falsy and gives no shift.\<close>

definition shift_entries :: "Syntax \<Rightarrow> gotos \<Rightarrow> nat \<Rightarrow> ((nat \<times> symbol) \<times> action) list" where
  "shift_entries syn gotos i =
     concat (map (\<lambda>t. case map_of gotos (i, t) of
                         None \<Rightarrow> []
                       | Some j \<Rightarrow> if j = 0 then [] else [((i, t), Shift j)]) (tokens syn))"

definition reduce_entries :: "nat \<Rightarrow> lr1_item list \<Rightarrow> ((nat \<times> symbol) \<times> action) list" where
  "reduce_entries i item_set =
     concat (map (\<lambda>item.
                    if head (rule item) \<noteq> None then [((i, follower item), Reduce (rule item))]
                    else if follower item = None then [((i, None), Accept)]
                    else [])
               (filter (\<lambda>item. dot item = length (body (rule item))) item_set))"

definition action_entries ::
  "Syntax \<Rightarrow> (symbol, rule list) dict \<Rightarrow> prefix_table \<Rightarrow> lr1_item list list \<Rightarrow> gotos \<Rightarrow>
     ((nat \<times> symbol) \<times> action) list"
where
  "action_entries syn R P item_sets gotos =
     concat (map (\<lambda>(i, core). shift_entries syn gotos i @ reduce_entries i (lr1_closure R P core))
               (zip [0..<length item_sets] item_sets))"

text \<open>Each assignment is guarded by \<^verbatim>\<open>assert key not in actions, "Conflict!"\<close>.\<close>

fun put_actions :: "((nat \<times> symbol) \<times> action) list \<Rightarrow> actions \<Rightarrow> parse_error + actions" where
  "put_actions [] acts = Inr acts"
| "put_actions ((key, a) # entries) acts =
     (if dict_contains acts key then Inl AssertionError_conflict
      else put_actions entries (AList.update key a acts))"

definition actions ::
  "Syntax \<Rightarrow> (symbol, rule list) dict \<Rightarrow> prefix_table \<Rightarrow> lr1_item list list \<Rightarrow> gotos \<Rightarrow>
     parse_error + actions"
where
  "actions syn R P item_sets gotos = put_actions (action_entries syn R P item_sets gotos) []"

subsection \<open>Tokens\<close>

definition scan_step ::
  "string \<Rightarrow> nat \<Rightarrow> symbol \<times> scanner \<Rightarrow> int \<times> symbol \<Rightarrow> int \<times> symbol"
where
  "scan_step source i = (\<lambda>(token, scanner) (max_len, recognised_token).
     case scanner source i of
       None \<Rightarrow> (max_len, recognised_token)
     | Some len \<Rightarrow>
         if len > max_len then (len, token) else (max_len, recognised_token))"

definition scan_token ::
  "Syntax \<Rightarrow> string \<Rightarrow> nat \<Rightarrow> parse_error + symbol \<times> (nat \<times> nat)"
where
  "scan_token syn source i =
     (if i \<ge> length source then Inr (None, (i, i))
      else (let (max_len, recognised_token) =
                  fold (scan_step source i) (token_parsers syn) (- 1, Some ''???'')
            in if max_len = - 1 then Inl (ValueError_unrecognized_token i)
               else Inr (recognised_token, (i, nat (int i + max_len)))))"

subsection \<open>The driver\<close>

text \<open>
  The stack is a Python list, the top at its end, of state numbers and nodes. It
  starts as \<open>[0]\<close> and every step appends a node and a state or cuts an even number of
  cells, so states and nodes alternate; a reduced body that held a state cell, or a state
  in the place of the returned node, is reported as \<open>AttributeError_span\<close>.
\<close>

datatype cell = State nat | Tree node

fun every_other :: "'a list \<Rightarrow> 'a list" where
  "every_other [] = []"
| "every_other [x] = [x]"
| "every_other (x # y # xs) = x # every_other xs"

fun trees :: "cell list \<Rightarrow> node list option" where
  "trees [] = Some []"
| "trees (Tree n # cs) = map_option ((#) n) (trees cs)"
| "trees (State s # cs) = None"

definition expected :: "actions \<Rightarrow> cell \<Rightarrow> symbol list" where
  "expected acts c =
     map (\<lambda>((i, tok), a). tok) (filter (\<lambda>((i, tok), a). State i = c) acts)"

definition lookup_action :: "actions \<Rightarrow> cell \<Rightarrow> symbol \<Rightarrow> action option" where
  "lookup_action acts c token =
     (case c of State s \<Rightarrow> map_of acts (s, token) | Tree n \<Rightarrow> None)"

definition lookup_goto :: "gotos \<Rightarrow> cell \<Rightarrow> symbol \<Rightarrow> nat option" where
  "lookup_goto gotos c h = (case c of State s \<Rightarrow> map_of gotos (s, h) | Tree n \<Rightarrow> None)"

text \<open>One \<^verbatim>\<open>reduce\<close>: the stack after it, or the exception.\<close>

definition reduce :: "gotos \<Rightarrow> rule \<Rightarrow> cell list \<Rightarrow> parse_error + cell list" where
  "reduce gotos r stack0 =
     (let n = length (body r) * 2;
          stack = (if n = 0 then [] else take (length stack0 - n) stack0);
          body_cells = every_other (if n = 0 then stack0 else drop (length stack0 - n) stack0)
      in if stack = [] then Inl IndexError_stack
         else (case lookup_goto gotos (last stack) (head r) of
                 None \<Rightarrow> Inl KeyError_gotos
               | Some state \<Rightarrow>
                   (case trees body_cells of
                      None \<Rightarrow> Inl AttributeError_span
                    | Some [] \<Rightarrow> Inl IndexError_stack
                    | Some (b # bs) \<Rightarrow>
                        Inr (stack @
                          [Tree (Node (head r) (fst (span b), snd (span (last (b # bs))))
                                   (Inr (b # bs))),
                           State state]))))"

partial_function (option) parse_loop ::
  "Syntax \<Rightarrow> actions \<Rightarrow> gotos \<Rightarrow> string \<Rightarrow> cell list \<Rightarrow> symbol \<Rightarrow> nat \<times> nat \<Rightarrow>
     (parse_error + node) option"
where
  "parse_loop syn acts gotos source stack token ij =
     (if stack = [] then Some (Inl IndexError_stack)
      else
        (case lookup_action acts (last stack) token of
           None \<Rightarrow>
             Some (Inl (ValueError_unexpected_token ij token (expected acts (last stack))))
         | Some (Shift state) \<Rightarrow>
             (case scan_token syn source (snd ij) of
                Inl e \<Rightarrow> Some (Inl e)
              | Inr (token', ij') \<Rightarrow>
                  parse_loop syn acts gotos source
                    (stack @ [Tree (Node token ij (Inl (slice source (fst ij) (snd ij)))),
                              State state])
                    token' ij')
         | Some (Reduce r) \<Rightarrow>
             (case reduce gotos r stack of
                Inl e \<Rightarrow> Some (Inl e)
              | Inr stack' \<Rightarrow> parse_loop syn acts gotos source stack' token ij)
         | Some Accept \<Rightarrow>
             (case stack of
                c # Tree n # cs \<Rightarrow> Some (Inr n)
              | c # State s # cs \<Rightarrow> Some (Inl AttributeError_span)
              | _ \<Rightarrow> Some (Inl IndexError_stack))))"

text \<open>\<^verbatim>\<open>LR1Parser.parse\<close>: the first token is scanned before \<^verbatim>\<open>self.actions\<close> is first
  read, which is where the tables are built.\<close>

definition parse :: "Syntax \<Rightarrow> string \<Rightarrow> string \<Rightarrow> nat \<Rightarrow> (parse_error + node) option" where
  "parse syn root_node source offset =
     (case scan_token syn source offset of
        Inl e \<Rightarrow> Some (Inl e)
      | Inr (token, ij) \<Rightarrow>
          (let R = rules syn; P = prefixes syn;
               (item_sets, gotos) = item_sets_and_gotos syn R P root_node
           in case actions syn R P item_sets gotos of
                Inl e \<Rightarrow> Some (Inl e)
              | Inr acts \<Rightarrow> parse_loop syn acts gotos source [State 0] token ij))"

declare parse_loop.simps [code]

subsection \<open>The grammar of \<^verbatim>\<open>rat.py\<close>\<close>

definition rat_rules :: "(string + rule) list" where
  "rat_rules = [Inl ''stmts identifier  =  expr'', Inl ''expr identifier'']"

definition rat_token_parsers :: "(symbol, scanner) dict" where
  "rat_token_parsers = [(Some ''identifier'', parse_identifier)]"

text \<open>\<^verbatim>\<open>Syntax.from_description(rules, token_parsers).get_parser_for("stmts").parse(source)\<close>\<close>

definition rat_parse :: "string \<Rightarrow> (parse_error + node) option" where
  "rat_parse source =
     (case from_description rat_rules rat_token_parsers of
        Inl e \<Rightarrow> Some (Inl e)
      | Inr syn \<Rightarrow> parse syn ''stmts'' source 0)"

text \<open>A description, a root and a source, parsed from offset 0.\<close>

definition parse_description ::
  "(string + rule) list \<Rightarrow> (symbol, scanner) dict \<Rightarrow> string \<Rightarrow> string \<Rightarrow>
     (parse_error + node) option"
where
  "parse_description description extra_parsers root_node source =
     (case from_description description extra_parsers of
        Inl e \<Rightarrow> Some (Inl e)
      | Inr syn \<Rightarrow> parse syn root_node source 0)"

text \<open>Conditions under which the driver is shown to stop: every token that the scanners
  recognise somewhere in the source is non-empty, every rule that the table reduces has
  at least two body symbols, and no shift stands under the end-of-input lookahead (tables
  built by \<open>actions\<close> have none, lemma \<open>actions_shifts_tokens_only\<close>).\<close>

definition tokens_nonempty :: "Syntax \<Rightarrow> string \<Rightarrow> bool" where
  "tokens_nonempty syn source =
     list_all (\<lambda>i. case scan_token syn source i of
                      Inr (Some t, (a, b)) \<Rightarrow> a < b
                    | _ \<Rightarrow> True) [0..<length source]"

definition reduces_long_rules :: "actions \<Rightarrow> bool" where
  "reduces_long_rules acts =
     list_all (\<lambda>(key, a). case a of Reduce r \<Rightarrow> 2 \<le> length (body r) | _ \<Rightarrow> True) acts"

definition shifts_tokens_only :: "actions \<Rightarrow> bool" where
  "shifts_tokens_only acts =
     list_all (\<lambda>((s, tok), a). case a of Shift st \<Rightarrow> tok \<noteq> None | _ \<Rightarrow> True) acts"

subsection \<open>The invariant of the prefix tables\<close>

text \<open>
  What the fixpoint loop of \<^verbatim>\<open>prefixes\<close> keeps: the keys are distinct symbols and
  include every head, and every set is duplicate-free and holds terminals and the null
  marker only. \<open>pass_step\<close> relates the state before and after a part of a pass: the
  keys stay, the sets only grow, an unchanged flag means an unchanged table and a
  cleared flag means a larger one. \<open>pass_measure\<close> bounds the number of passes.
  \<open>terminal_only\<close> is the invariant for a head whose only rule is a single terminal.
\<close>

definition table_size :: "prefix_table \<Rightarrow> nat" where
  "table_size t = sum_list (map (\<lambda>e. length (snd e)) t)"

definition entry_ok :: "Syntax \<Rightarrow> symbol \<times> symbol list \<Rightarrow> bool" where
  "entry_ok syn e \<longleftrightarrow>
     fst e \<in> set (symbols syn) \<and> distinct (snd e) \<and>
     list_all (\<lambda>f. f = None \<or> f \<in> set (tokens syn)) (snd e)"

definition table_ok :: "Syntax \<Rightarrow> prefix_table \<Rightarrow> bool" where
  "table_ok syn t \<longleftrightarrow>
     distinct (map fst t) \<and> list_all (entry_ok syn) t \<and>
     list_all (\<lambda>n. n \<in> set (map fst t)) (nodes syn)"

definition pass_step :: "Syntax \<Rightarrow> bool \<times> prefix_table \<Rightarrow> bool \<times> prefix_table \<Rightarrow> bool" where
  "pass_step syn st st' \<longleftrightarrow>
     (table_ok syn (snd st) \<longrightarrow>
        table_ok syn (snd st') \<and> map fst (snd st') = map fst (snd st) \<and>
        table_size (snd st) \<le> table_size (snd st') \<and>
        (fst st' \<longrightarrow> st' = st) \<and>
        (fst st \<and> \<not> fst st' \<longrightarrow> table_size (snd st) < table_size (snd st')))"

definition pass_measure :: "Syntax \<Rightarrow> bool \<times> prefix_table \<Rightarrow> nat" where
  "pass_measure syn st =
     2 * (length (symbols syn) * Suc (length (tokens syn)) - table_size (snd st)) +
     (if fst st then 0 else 1)"

definition terminal_only :: "symbol \<Rightarrow> string \<Rightarrow> prefix_table \<Rightarrow> bool" where
  "terminal_only h t table \<longleftrightarrow>
     map_of table (Some t) = Some [Some t] \<and>
     (map_of table h = Some [] \<or> map_of table h = Some [Some t])"

subsection \<open>The invariants of the closure and of the automaton\<close>

text \<open>
  The items that can ever occur: a rule of the grammar or the root rule, a dot inside the
  body or at its end, and a follower that is null or stands in some prefix set. A closure
  stays inside the core and the dot-0 items; the collection of item sets holds duplicate-free
  sets of such items, no two of them equal as sets.
\<close>

definition followers_universe :: "prefix_table \<Rightarrow> symbol list" where
  "followers_universe P = None # concat (map snd P)"

definition closure_universe ::
  "(symbol, rule list) dict \<Rightarrow> prefix_table \<Rightarrow> lr1_item list \<Rightarrow> lr1_item list"
where
  "closure_universe R P core_items =
     core_items @
     concat (map (\<lambda>r. map (\<lambda>f. LR1Item 0 r f) (followers_universe P)) (concat (map snd R)))"

definition item_universe ::
  "(symbol, rule list) dict \<Rightarrow> prefix_table \<Rightarrow> string \<Rightarrow> lr1_item list"
where
  "item_universe R P root_node =
     concat (map (\<lambda>r. concat (map (\<lambda>d. map (\<lambda>f. LR1Item d r f) (followers_universe P))
                                  [0..<Suc (length (body r))]))
               (Rule None [root_node] # concat (map snd R)))"

definition closure_inv ::
  "(symbol, rule list) dict \<Rightarrow> prefix_table \<Rightarrow> lr1_item list \<Rightarrow> nat \<times> lr1_item list \<Rightarrow> bool"
where
  "closure_inv R P core_items st \<longleftrightarrow>
     fst st \<le> length (snd st) \<and> distinct (snd st) \<and>
     set (snd st) \<subseteq> set (closure_universe R P core_items)"

definition item_sets_inv ::
  "(symbol, rule list) dict \<Rightarrow> prefix_table \<Rightarrow> string \<Rightarrow> lr1_item list list \<Rightarrow> bool"
where
  "item_sets_inv R P root_node item_sets \<longleftrightarrow>
     list_all (\<lambda>s. distinct s \<and> set s \<subseteq> set (item_universe R P root_node)) item_sets \<and>
     distinct (map set item_sets)"

definition automaton_inv ::
  "(symbol, rule list) dict \<Rightarrow> prefix_table \<Rightarrow> string \<Rightarrow>
     nat \<times> lr1_item list list \<times> gotos \<Rightarrow> bool"
where
  "automaton_inv R P root_node st \<longleftrightarrow>
     fst st \<le> length (fst (snd st)) \<and> item_sets_inv R P root_node (fst (snd st))"

text \<open>What every registered scanner reports at an offset, in registration order.\<close>

definition scan_results :: "Syntax \<Rightarrow> string \<Rightarrow> nat \<Rightarrow> (symbol \<times> int option) list" where
  "scan_results syn source i =
     map (\<lambda>(token, scanner). (token, scanner source i)) (token_parsers syn)"

text \<open>A rule shorthand with single-character separator \<open>c\<close>: a first symbol, then runs of
  \<open>k + 1\<close> separators, each followed by a symbol; and the symbols that \<^verbatim>\<open>split_str\<close> makes
  of it (theorem \<open>split_str_runs\<close>).\<close>

fun shorthand :: "char \<Rightarrow> string \<Rightarrow> (nat \<times> string) list \<Rightarrow> string" where
  "shorthand c w [] = w"
| "shorthand c w ((k, w') # rest) = w @ replicate (Suc k) c @ shorthand c w' rest"

fun run_symbol :: "char \<Rightarrow> nat \<Rightarrow> string list" where
  "run_symbol c 0 = []"
| "run_symbol c (Suc k) = [replicate k c]"

fun shorthand_symbols :: "char \<Rightarrow> string \<Rightarrow> (nat \<times> string) list \<Rightarrow> string list" where
  "shorthand_symbols c w [] = [w]"
| "shorthand_symbols c w ((k, w') # rest) = w # run_symbol c k @ shorthand_symbols c w' rest"

fun shorthand_words :: "string \<Rightarrow> (nat \<times> string) list \<Rightarrow> string list" where
  "shorthand_words w [] = [w]"
| "shorthand_words w ((k, w') # rest) = w # replicate k [] @ shorthand_words w' rest"

definition symbol_ok :: "char \<Rightarrow> string \<Rightarrow> bool" where
  "symbol_ok c w \<longleftrightarrow> w \<noteq> [] \<and> c \<notin> set w"


section \<open>Invariants and properties\<close>

subsection \<open>The representation invariant\<close>

text \<open>The list holds no value twice, and the dict maps every value to its position in the
  list and holds nothing else.\<close>

definition wf_set :: "('a, 'z) sequential_set_scheme \<Rightarrow> bool" where
  "wf_set s \<longleftrightarrow>
     distinct (vals s) \<and> distinct (map fst (indexes s)) \<and>
     set (indexes s) = set (zip (vals s) (map int [0..<length (vals s)]))"

lemma wf_set_length: "wf_set s \<Longrightarrow> length (indexes s) = length (vals s)"
proof -
  assume wf: "wf_set s"
  then have d: "distinct (indexes s)" by (simp add: wf_set_def distinct_map)
  from wf have "distinct (zip (vals s) (map int [0..<length (vals s)]))"
    by (simp add: wf_set_def distinct_zipI1)
  then have "card (set (zip (vals s) (map int [0..<length (vals s)]))) = length (vals s)"
    by (simp add: distinct_card)
  moreover from d have "card (set (indexes s)) = length (indexes s)" by (rule distinct_card)
  ultimately show ?thesis using wf by (simp add: wf_set_def)
qed

lemma wf_set_lookup:
  "wf_set s \<Longrightarrow> map_of (indexes s) v = Some i \<longleftrightarrow> (\<exists>k < length (vals s). i = int k \<and> vals s ! k = v)"
proof -
  assume wf: "wf_set s"
  then have "map_of (indexes s) v = Some i \<longleftrightarrow> (v, i) \<in> set (indexes s)"
    by (simp add: wf_set_def)
  also have "\<dots> \<longleftrightarrow> (v, i) \<in> set (zip (vals s) (map int [0..<length (vals s)]))"
    using wf by (simp add: wf_set_def)
  also have "\<dots> \<longleftrightarrow> (\<exists>k < length (vals s). i = int k \<and> vals s ! k = v)"
    by (auto simp: set_zip)
  finally show ?thesis .
qed

lemma wf_set_absent: "wf_set s \<Longrightarrow> v \<notin> set (vals s) \<Longrightarrow> map_of (indexes s) v = None"
proof (rule ccontr)
  assume wf: "wf_set s" and v: "v \<notin> set (vals s)" and "map_of (indexes s) v \<noteq> None"
  then obtain i where "map_of (indexes s) v = Some i" by auto
  with wf obtain k where "k < length (vals s)" "vals s ! k = v" by (auto simp: wf_set_lookup)
  with v show False by auto
qed

lemma wf_set_present:
  "wf_set s \<Longrightarrow> p < length (vals s) \<Longrightarrow> map_of (indexes s) (vals s ! p) = Some (int p)"
  by (auto simp: wf_set_lookup)

lemma update_absent: "map_of al k = None \<Longrightarrow> AList.update k v al = al @ [(k, v)]"
  by (induction al) (auto split: if_splits)

lemma wf_set_snoc:
  assumes wf: "wf_set s" and v: "v \<notin> set (vals s)"
  shows "wf_set (s\<lparr>vals := vals s @ [v], indexes := indexes s @ [(v, int (length (vals s)))]\<rparr>)"
proof -
  from wf v have "map_of (indexes s) v = None" by (rule wf_set_absent)
  then have "v \<notin> fst ` set (indexes s)" by (simp add: map_of_eq_None_iff)
  with wf v show ?thesis by (auto simp: wf_set_def zip_append1)
qed

lemma push_present:
  "wf_set s \<Longrightarrow> p < length (vals s) \<Longrightarrow> push s (vals s ! p) = (int p, s)"
  by (simp add: push_def dict_get_def wf_set_present Let_def)

lemma push_absent:
  "wf_set s \<Longrightarrow> v \<notin> set (vals s) \<Longrightarrow>
   push s v = (int (length (vals s)),
               s\<lparr>vals := vals s @ [v], indexes := indexes s @ [(v, int (length (vals s)))]\<rparr>)"
  by (simp add: push_def dict_get_def wf_set_absent wf_set_length update_absent Let_def)

lemma push_wf: "wf_set s \<Longrightarrow> wf_set (snd (push s v))"
proof (cases "v \<in> set (vals s)")
  case True
  assume wf: "wf_set s"
  from True obtain p where "p < length (vals s)" "vals s ! p = v" by (auto simp: in_set_conv_nth)
  with wf show ?thesis using push_present [of s p] by simp
next
  case False
  assume "wf_set s"
  with False show ?thesis by (simp add: push_absent wf_set_snoc)
qed

text \<open>
  On a sequential set that satisfies its representation invariant, \<^verbatim>\<open>push\<close> of a value
  present at position \<open>p\<close> returns \<open>p\<close> and leaves the set as it is; \<^verbatim>\<open>push\<close> of an
  absent value appends it and returns the new last position; so a second \<^verbatim>\<open>push\<close> of
  the same value returns the index the first one returned. The invariant is kept.
\<close>

theorem push_interns:
  assumes wf: "wf_set s"
  shows "(\<forall>p < length (vals s). push s (vals s ! p) = (int p, s)) \<and>
         (v \<notin> set (vals s) \<longrightarrow>
            push s v = (int (length (vals s)),
              s\<lparr>vals := vals s @ [v], indexes := indexes s @ [(v, int (length (vals s)))]\<rparr>)) \<and>
         fst (push (snd (push s v)) v) = fst (push s v) \<and>
         wf_set (snd (push s v))"
proof (intro conjI allI impI)
  fix p assume "p < length (vals s)"
  with wf show "push s (vals s ! p) = (int p, s)" by (rule push_present)
next
  assume "v \<notin> set (vals s)"
  with wf show "push s v = (int (length (vals s)),
      s\<lparr>vals := vals s @ [v], indexes := indexes s @ [(v, int (length (vals s)))]\<rparr>)"
    by (rule push_absent)
next
  show "fst (push (snd (push s v)) v) = fst (push s v)"
  proof (cases "v \<in> set (vals s)")
    case True
    then obtain p where "p < length (vals s)" "vals s ! p = v" by (auto simp: in_set_conv_nth)
    with wf show ?thesis using push_present [of s p] by simp
  next
    case False
    let ?s' = "s\<lparr>vals := vals s @ [v], indexes := indexes s @ [(v, int (length (vals s)))]\<rparr>"
    from wf False have wf': "wf_set ?s'" by (rule wf_set_snoc)
    have "push ?s' (vals ?s' ! length (vals s)) = (int (length (vals s)), ?s')"
      by (rule push_present [OF wf']) simp
    then have "push ?s' v = (int (length (vals s)), ?s')" by simp
    with wf False show ?thesis by (simp add: push_absent)
  qed
next
  from wf show "wf_set (snd (push s v))" by (rule push_wf)
qed

theorem push_interns_witness:
  "wf_set (SequentialSet [''a'', ''b'']) \<and>
   push (SequentialSet [''a'', ''b'']) ''b'' = (1, SequentialSet [''a'', ''b'']) \<and>
   push (SequentialSet [''a'', ''b'']) ''c'' = (2, SequentialSet [''a'', ''b'', ''c'']) \<and>
   fst (push (snd (push (SequentialSet [''a'', ''b'']) ''c'')) ''c'') = 2"
proof -
  let ?S = "SequentialSet [''a'', ''b'']"
  have S: "?S = \<lparr>vals = [''a'', ''b''], indexes = [(''a'', 0), (''b'', 1)]\<rparr>"
    by (simp add: SequentialSet_def dict_fromkeys_def enumerate_indexes_def
        enumerate_from_def Let_def)
  have S': "SequentialSet [''a'', ''b'', ''c''] =
      \<lparr>vals = [''a'', ''b'', ''c''], indexes = [(''a'', 0), (''b'', 1), (''c'', 2)]\<rparr>"
    by (simp add: SequentialSet_def dict_fromkeys_def enumerate_indexes_def
        enumerate_from_def Let_def)
  have wf: "wf_set ?S" by (simp add: S wf_set_def)
  note inst = push_interns [OF wf, of "''c''"]
  from inst have "\<forall>p < length (vals ?S). push ?S (vals ?S ! p) = (int p, ?S)"
    by (rule conjunct1)
  moreover have "1 < length (vals ?S)" by (simp add: S)
  ultimately have "push ?S (vals ?S ! 1) = (int 1, ?S)" by blast
  then have present: "push ?S ''b'' = (1, ?S)" by (simp add: S)
  from inst have absent: "push ?S ''c'' = (2, SequentialSet [''a'', ''b'', ''c''])"
    by (simp add: S S')
  from inst absent have "fst (push (snd (push ?S ''c'')) ''c'') = 2" by simp
  with wf present absent show ?thesis by simp
qed

text \<open>
  Claim C7 at the inputs \<^verbatim>\<open>s = MutableSequentialSet(["a"]); s.insert(5, "b"); s.push("c")\<close>
  and \<^verbatim>\<open>s = MutableSequentialSet(["a", "b"]); del s[-1]; s.push("a")\<close>. The mutable set
  does not keep its invariant: \<^verbatim>\<open>insert\<close> at a clamped position leaves the new value out
  of the dict, and \<^verbatim>\<open>__delitem__\<close> at a negative position records the values behind it
  from that negative number on. \<^verbatim>\<open>push\<close> reads the dict: in the first set it takes the
  size of the dict, 1, for the position of the absent \<^verbatim>\<open>"c"\<close>, finds it different from
  the length 2 of the list, and returns 1 without appending; in the second it returns
  \<open>-1\<close> for \<^verbatim>\<open>"a"\<close>, which is present at position 0.
\<close>

theorem push_on_broken_index:
  "insert_at (SequentialSet [''a'']) 5 ''b'' =
     (Inr (), \<lparr>vals = [''a'', ''b''], indexes = [(''a'', 0)]\<rparr>) \<and>
   push \<lparr>vals = [''a'', ''b''], indexes = [(''a'', 0)]\<rparr> ''c'' =
     (1, \<lparr>vals = [''a'', ''b''], indexes = [(''a'', 0)]\<rparr>) \<and>
   delitem (SequentialSet [''a'', ''b'']) (- 1) =
     (Inr (), \<lparr>vals = [''a''], indexes = [(''a'', - 1)]\<rparr>) \<and>
   push \<lparr>vals = [''a''], indexes = [(''a'', - 1)]\<rparr> ''a'' =
     (- 1, \<lparr>vals = [''a''], indexes = [(''a'', - 1)]\<rparr>)"
  by (simp add: insert_at_def delitem_def push_def SequentialSet_def dict_fromkeys_def
      enumerate_indexes_def enumerate_from_def dict_contains_def dict_get_def list_insert_def
      list_pop_def norm_index_def clamp_index_def slice_from_def reindex_def Let_def)


text \<open>
  Claim C10. \<^verbatim>\<open>index\<close> has no raising branch: it is a total function into the ints.
  For a value that the position dict does not hold it returns \<open>-1\<close>; for a value recorded
  at a position outside \<open>[start, stop)\<close> it returns \<open>-1\<close>; with \<open>stop\<close> omitted the upper
  bound is \<open>2 ^ 30\<close>: a value recorded before \<open>start\<close>, or at \<open>2 ^ 30\<close> or beyond, is
  reported as \<open>-1\<close>. A value recorded inside the range is reported at its position, with
  \<open>stop\<close> given or omitted.
\<close>

theorem index_sentinel:
  "(map_of (indexes s) v = None \<longrightarrow> index s v start stop = - 1) \<and>
   (\<forall>p. map_of (indexes s) v = Some p \<and> \<not> (start \<le> p \<and> p < st) \<longrightarrow>
        index s v start (Some st) = - 1) \<and>
   (\<forall>p. map_of (indexes s) v = Some p \<and> 2 ^ 30 \<le> p \<longrightarrow> index s v start None = - 1) \<and>
   (\<forall>p. map_of (indexes s) v = Some p \<and> start \<le> p \<and> p < 2 ^ 30 \<longrightarrow>
        index s v start None = p) \<and>
   (\<forall>p. map_of (indexes s) v = Some p \<and> p < start \<longrightarrow> index s v start None = - 1) \<and>
   (\<forall>p. map_of (indexes s) v = Some p \<and> start \<le> p \<and> p < st \<longrightarrow>
        index s v start (Some st) = p)"
  by (auto simp: index_def dict_get_def Let_def)

theorem index_sentinel_witness:
  "index (SequentialSet [''a'', ''b'']) ''c'' 0 None = - 1 \<and>
   index (SequentialSet [''a'', ''b'']) ''a'' 1 (Some 2) = - 1 \<and>
   index \<lparr>vals = [], indexes = [(''a'', 2 ^ 30)]\<rparr> ''a'' 0 None = - 1 \<and>
   index (SequentialSet [''a'', ''b'']) ''b'' 0 None = 1 \<and>
   index (SequentialSet [''a'', ''b'']) ''a'' 1 None = - 1 \<and>
   index (SequentialSet [''a'', ''b'']) ''b'' 1 (Some 2) = 1"
proof -
  let ?S = "SequentialSet [''a'', ''b'']"
  let ?T = "\<lparr>vals = [], indexes = [(''a'', (2::int) ^ 30)]\<rparr>"
  have S: "indexes ?S = [(''a'', 0), (''b'', 1)]"
    by (simp add: SequentialSet_def dict_fromkeys_def enumerate_indexes_def
        enumerate_from_def Let_def)
  have "map_of (indexes ?S) ''c'' = None" by (simp add: S)
  with index_sentinel [of ?S "''c''" 0 None] have a: "index ?S ''c'' 0 None = - 1" by blast
  have "map_of (indexes ?S) ''a'' = Some 0 \<and> \<not> ((1::int) \<le> 0 \<and> (0::int) < 2)" by (simp add: S)
  with index_sentinel [of ?S "''a''" 1 None 2] have b: "index ?S ''a'' 1 (Some 2) = - 1"
    by blast
  have "map_of (indexes ?T) ''a'' = Some (2 ^ 30) \<and> (2::int) ^ 30 \<le> 2 ^ 30" by simp
  with index_sentinel [of ?T "''a''" 0 None] have c: "index ?T ''a'' 0 None = - 1" by blast
  have "map_of (indexes ?S) ''b'' = Some 1 \<and> (0::int) \<le> 1 \<and> (1::int) < 2 ^ 30" by (simp add: S)
  with index_sentinel [of ?S "''b''" 0 None] have d: "index ?S ''b'' 0 None = 1" by blast
  have "map_of (indexes ?S) ''a'' = Some 0 \<and> (0::int) < 1" by (simp add: S)
  with index_sentinel [of ?S "''a''" 1 None] have e: "index ?S ''a'' 1 None = - 1" by blast
  have "map_of (indexes ?S) ''b'' = Some 1 \<and> (1::int) \<le> 1 \<and> (1::int) < 2" by (simp add: S)
  with index_sentinel [of ?S "''b''" 1 None 2] have f: "index ?S ''b'' 1 (Some 2) = 1" by blast
  from a b c d e f show ?thesis by simp
qed

subsection \<open>The dual-mode set after its first hash\<close>

lemma hash_set_hashed: "hash (snd (hash_set h s)) \<noteq> None"
  by (simp add: hash_set_def Let_def split: option.splits)

lemma hash_set_stable:
  "hash_set h (snd (hash_set h s)) = (fst (hash_set h s), snd (hash_set h s))"
  by (simp add: hash_set_def Let_def split: option.splits)

lemma hash_set_sum: "hash s = None \<Longrightarrow> fst (hash_set h s) = sum_list (map h (vals s))"
  by (simp add: hash_set_def Let_def)

text \<open>
  Claim C2, as the code has it. Once a \<^verbatim>\<open>DynSet\<close> holds a cached hash, positional delete,
  insert, add, push, remove, and discard of a present element raise the \<^verbatim>\<open>ValueError\<close>
  "It is prohibited to modify hashable set" and leave the set as it was. Hashing again
  changes nothing and no method clears the cached hash (positional set keeps it too), so
  the transition is one-way. \<^verbatim>\<open>freeze\<close> returns a \<^verbatim>\<open>DynSet\<close> itself. Whether
  positional set succeeds on a hashed set is not part of this statement.
\<close>

theorem dynset_hashed_rejects:
  assumes "hash s \<noteq> None"
  shows "dyn_delitem s i = (Inl ValueError_prohibited_to_modify, s) \<and>
         dyn_insert s i v = (Inl ValueError_prohibited_to_modify, s) \<and>
         dyn_add s v = (Inl ValueError_prohibited_to_modify, s) \<and>
         dyn_push s v = (Inl ValueError_prohibited_to_modify, s) \<and>
         dyn_remove s v = (Inl ValueError_prohibited_to_modify, s) \<and>
         (contains s v \<longrightarrow> dyn_discard s v = (Inl ValueError_prohibited_to_modify, s)) \<and>
         snd (hash_set h s) = s \<and>
         hash (snd (dyn_setitem s i v)) = hash s \<and>
         freeze_dyn s = s"
  using assms
  by (auto simp: dyn_delitem_def dyn_insert_def dyn_add_def dyn_push_def dyn_remove_def
      dyn_discard_def contains_def hash_set_def freeze_dyn_def dyn_setitem_def setitem_def
      Let_def split: option.splits)

theorem dynset_hashed_rejects_witness:
  "hash (snd (hash_set id (DynSet [1, 2]))) \<noteq> None \<and>
   dyn_add (snd (hash_set id (DynSet [1, 2]))) 3 =
     (Inl ValueError_prohibited_to_modify,
      \<lparr>vals = [1, 2], indexes = [(1, 0), (2, 1)], hash = Some 3\<rparr>) \<and>
   dyn_discard (snd (hash_set id (DynSet [1, 2]))) 2 =
     (Inl ValueError_prohibited_to_modify,
      \<lparr>vals = [1, 2], indexes = [(1, 0), (2, 1)], hash = Some 3\<rparr>)"
proof -
  let ?S = "snd (hash_set id (DynSet [1, 2 :: int]))"
  have S: "?S = \<lparr>vals = [1, 2], indexes = [(1, 0), (2, 1)], hash = Some 3\<rparr>"
    by (simp add: hash_set_def DynSet_def dict_fromkeys_def enumerate_indexes_def
        enumerate_from_def Let_def)
  have h: "hash ?S \<noteq> None" by (simp add: S)
  have c: "contains ?S 2" by (simp add: S contains_def dict_contains_def)
  from dynset_hashed_rejects [OF h, of 0 3 id]
  have "dyn_add ?S 3 = (Inl ValueError_prohibited_to_modify, ?S)" by blast
  moreover from dynset_hashed_rejects [OF h, of 0 2 id] c
  have "dyn_discard ?S 2 = (Inl ValueError_prohibited_to_modify, ?S)" by blast
  ultimately show ?thesis using h by (simp add: S)
qed

text \<open>
  Claim C2 as stated fails twice. \<^verbatim>\<open>DynSet.__setitem__\<close> never looks at the cached hash
  (its sibling \<^verbatim>\<open>MutableOrHashableSequentialSet.__setitem__\<close> does), so a positional set on
  a hashed set replaces the element. And \<^verbatim>\<open>freeze\<close> on a \<^verbatim>\<open>DynSet\<close> that was never
  hashed returns that same set, on which \<^verbatim>\<open>add\<close> succeeds.
\<close>

theorem dynset_setitem_and_freeze_counterexample:
  "dyn_setitem (snd (hash_set id (DynSet [1, 2]))) 0 3 =
     (Inr (), \<lparr>vals = [3, 2], indexes = [(2, 1), (3, 0)], hash = Some 3\<rparr>) \<and>
   dyn_add (freeze_dyn (DynSet [1, 2 :: int])) 3 =
     (Inr (), \<lparr>vals = [1, 2, 3], indexes = [(1, 0), (2, 1), (3, 2)], hash = None\<rparr>)"
  by (simp add: dyn_setitem_def setitem_def hash_set_def DynSet_def dict_fromkeys_def
      enumerate_indexes_def enumerate_from_def norm_index_def dict_contains_def
      dyn_add_def add_def freeze_dyn_def Let_def)

subsection \<open>Positions out of range\<close>

text \<open>
  Claim C9 at the input \<^verbatim>\<open>s = MutableSequentialSet(["a"]); s.insert(5, "b"); s.add("b")\<close>.
  \<^verbatim>\<open>list.insert\<close> clamps the position 5 to the end of the list, but the loop that
  records positions walks \<^verbatim>\<open>self.values[5:]\<close>, which is empty: \<^verbatim>\<open>"b"\<close> is in the list
  and not in the dict. So \<^verbatim>\<open>"b" in s\<close> is false after the insertion, and \<^verbatim>\<open>add\<close>
  appends \<^verbatim>\<open>"b"\<close> a second time: iteration yields it twice.
\<close>

theorem insert_out_of_range_duplicates:
  "insert_at (SequentialSet [''a'']) 5 ''b'' =
     (Inr (), \<lparr>vals = [''a'', ''b''], indexes = [(''a'', 0)]\<rparr>) \<and>
   \<not> contains (snd (insert_at (SequentialSet [''a'']) 5 ''b'')) ''b'' \<and>
   iter (add (snd (insert_at (SequentialSet [''a'']) 5 ''b'')) ''b'') = [''a'', ''b'', ''b'']"
  by (simp add: insert_at_def SequentialSet_def dict_fromkeys_def enumerate_indexes_def
      enumerate_from_def dict_contains_def list_insert_def clamp_index_def slice_from_def
      reindex_def add_def contains_def iter_def Let_def)

section \<open>The rule shorthand\<close>

lemma split_loop_word:
  "c \<notin> set w \<Longrightarrow> m < 0 \<Longrightarrow> split_loop [c] m acc (w @ s) = split_loop [c] m (rev w @ acc) s"
  by (induction w arbitrary: acc) auto

lemma split_loop_seps:
  "m < 0 \<Longrightarrow> split_loop [c] m acc (replicate (Suc k) c @ s) =
     rev acc # replicate k [] @ split_loop [c] (m - 1 - int k) [] s"
proof (induction k arbitrary: m acc)
  case 0
  then show ?case by simp
next
  case (Suc k)
  have "split_loop [c] m acc (replicate (Suc (Suc k)) c @ s) =
        rev acc # split_loop [c] (m - 1) [] (replicate (Suc k) c @ s)"
    using Suc.prems by simp
  also have "\<dots> = rev acc # [] # replicate k [] @ split_loop [c] (m - 1 - 1 - int k) [] s"
    using Suc.prems Suc.IH [of "m - 1" "[]"] by simp
  finally show ?case by (simp add: algebra_simps)
qed

lemma split_loop_shorthand:
  "c \<notin> set w \<Longrightarrow> list_all (\<lambda>(k, w'). c \<notin> set w') rest \<Longrightarrow> m < 0 \<Longrightarrow>
   split_loop [c] m acc (shorthand c w rest) = (rev acc @ w) # tl (shorthand_words w rest)"
proof (induction rest arbitrary: w m acc)
  case Nil
  then show ?case using split_loop_word [of c w m acc "[]"] by simp
next
  case (Cons p rest)
  obtain k w' where p: "p = (k, w')" by (cases p)
  from Cons.prems p have w': "c \<notin> set w'" and rest: "list_all (\<lambda>(k, w'). c \<notin> set w') rest"
    by auto
  have "split_loop [c] m acc (shorthand c w (p # rest)) =
        split_loop [c] m (rev w @ acc) (replicate (Suc k) c @ shorthand c w' rest)"
    using Cons.prems p split_loop_word [of c w m acc] by simp
  also have "\<dots> = (rev acc @ w) # replicate k [] @
        split_loop [c] (m - 1 - int k) [] (shorthand c w' rest)"
    using Cons.prems split_loop_seps [of m c "rev w @ acc" k] by simp
  also have "split_loop [c] (m - 1 - int k) [] (shorthand c w' rest) =
        w' # tl (shorthand_words w' rest)"
    using Cons.IH [OF w' rest, of "m - 1 - int k" "[]"] Cons.prems by simp
  also have "w' # tl (shorthand_words w' rest) = shorthand_words w' rest"
    by (cases rest) auto
  finally show ?case using p by simp
qed

lemma split_str_loop_merge:
  "split_str_loop [c] (replicate n [] @ ws) (res @ [replicate j c]) =
   split_str_loop [c] ws (res @ [replicate (j + n) c])"
proof (induction n arbitrary: j)
  case 0
  then show ?case by simp
next
  case (Suc n)
  have cond: "replicate j c = [] \<or> prefix [c] (replicate j c)"
    by (cases j) auto
  have "split_str_loop [c] (replicate (Suc n) [] @ ws) (res @ [replicate j c]) =
        split_str_loop [c] (replicate n [] @ ws) (res @ [replicate (Suc j) c])"
    using cond by (simp add: replicate_append_same)
  then show ?case using Suc.IH [of "Suc j"] by simp
qed

lemma split_str_loop_run:
  assumes "symbol_ok c w"
  shows "split_str_loop [c] (w # replicate k [] @ ws) result =
         split_str_loop [c] ws (result @ w # run_symbol c k)"
proof (cases k)
  case 0
  with assms show ?thesis by (simp add: symbol_ok_def)
next
  case (Suc n)
  from assms have w: "w \<noteq> []" "\<not> prefix [c] w"
    by (auto simp: symbol_ok_def prefix_def)
  have "split_str_loop [c] (w # replicate k [] @ ws) result =
        split_str_loop [c] (replicate n [] @ ws) ((result @ [w]) @ [replicate 0 c])"
    using w Suc by simp
  also have "\<dots> = split_str_loop [c] ws ((result @ [w]) @ [replicate (0 + n) c])"
    by (rule split_str_loop_merge)
  finally show ?thesis using Suc by simp
qed

lemma split_str_loop_shorthand:
  "symbol_ok c w \<Longrightarrow> list_all (\<lambda>(k, w'). symbol_ok c w') rest \<Longrightarrow>
   split_str_loop [c] (shorthand_words w rest) result = result @ shorthand_symbols c w rest"
proof (induction rest arbitrary: w result)
  case Nil
  then show ?case by (simp add: symbol_ok_def)
next
  case (Cons p rest)
  obtain k w' where p: "p = (k, w')" by (cases p)
  from Cons.prems p have w': "symbol_ok c w'"
    and rest: "list_all (\<lambda>(k, w'). symbol_ok c w') rest" by auto
  have "split_str_loop [c] (shorthand_words w (p # rest)) result =
        split_str_loop [c] (shorthand_words w' rest) (result @ w # run_symbol c k)"
    using p split_str_loop_run [OF Cons.prems(1)] by simp
  also have "\<dots> = (result @ w # run_symbol c k) @ shorthand_symbols c w' rest"
    by (rule Cons.IH [OF w' rest])
  finally show ?case using p by simp
qed

text \<open>
  Claim C5, as the code has it. In a shorthand split on one separator character, a run
  of \<open>k + 1\<close> separators between two symbols gives no symbol when \<open>k = 0\<close> and exactly one
  symbol when \<open>k > 0\<close>, named by \<open>k - 1\<close> separator characters: the run shortened by two.
\<close>

theorem split_str_runs:
  assumes "symbol_ok c w" and "list_all (\<lambda>(k, w'). symbol_ok c w') rest"
  shows "split_str (shorthand c w rest) [c] (- 1) = Inr (shorthand_symbols c w rest)"
proof -
  from assms have "c \<notin> set w" and "list_all (\<lambda>(k, w'). c \<notin> set w') rest"
    by (auto simp: symbol_ok_def list_all_iff)
  then have "split_loop [c] (- 1) [] (shorthand c w rest) = w # tl (shorthand_words w rest)"
    using split_loop_shorthand [of c w rest "- 1" "[]"] by simp
  also have "\<dots> = shorthand_words w rest" by (cases rest) auto
  finally show ?thesis
    using split_str_loop_shorthand [OF assms, of "[]"]
    by (simp add: split_str_def str_split_def)
qed

theorem split_str_runs_witness:
  "split_str ''a  b   c d    e'' '' '' (- 1) =
     Inr [''a'', [], ''b'', '' '', ''c'', ''d'', ''  '', ''e'']"
proof -
  have ok: "symbol_ok CHR '' '' ''a''" by (simp add: symbol_ok_def)
  have rest: "list_all (\<lambda>(k, w'). symbol_ok CHR '' '' w')
      [(1, ''b''), (2, ''c''), (0, ''d''), (3, ''e'')]"
    by (simp add: symbol_ok_def)
  from split_str_runs [OF ok rest] show ?thesis by (simp add: numeral_eq_Suc)
qed

text \<open>
  Claim C5 as stated fails: a run of two spaces gives the symbol with the empty name, and a
  run of three spaces the symbol named by one space, not symbols named by the runs.
\<close>

theorem split_str_run_name_counterexample:
  "split_str ''a  b'' '' '' (- 1) = Inr [''a'', [], ''b''] \<and>
   split_str ''a   b'' '' '' (- 1) = Inr [''a'', '' '', ''b'']"
  by (simp add: split_str_def str_split_def)

section \<open>Tokens\<close>


lemma fold_scan_step:
  "fold (scan_step source i) tp (m, t) = (M, T) \<Longrightarrow>
   (\<forall>k < length tp. \<forall>l. snd (tp ! k) source i = Some l \<longrightarrow> l \<le> M) \<and>
   ((M = m \<and> T = t) \<or>
    (m < M \<and> (\<exists>k < length tp. fst (tp ! k) = T \<and> snd (tp ! k) source i = Some M \<and>
                 (\<forall>k' < k. \<forall>l. snd (tp ! k') source i = Some l \<longrightarrow> l < M))))"
proof (induction tp arbitrary: m t)
  case Nil
  then show ?case by simp
next
  case (Cons p tp)
  obtain tok sc where p: "p = (tok, sc)" by (cases p)
  obtain m' t' where step: "scan_step source i p (m, t) = (m', t')"
    by (cases "scan_step source i p (m, t)")
  with Cons.prems have fold: "fold (scan_step source i) tp (m', t') = (M, T)" by simp
  note IH = Cons.IH [OF fold]
  from IH have le: "\<forall>k < length tp. \<forall>l. snd (tp ! k) source i = Some l \<longrightarrow> l \<le> M"
    by blast
  from IH have m'M: "m' \<le> M" by auto
  from step p have head: "m \<le> m'" "\<forall>l. sc source i = Some l \<longrightarrow> l \<le> m'"
    by (auto simp: scan_step_def split: option.splits if_splits)
  have bound: "\<forall>k < length (p # tp). \<forall>l. snd ((p # tp) ! k) source i = Some l \<longrightarrow> l \<le> M"
  proof (intro allI impI)
    fix k l assume k: "k < length (p # tp)" and l: "snd ((p # tp) ! k) source i = Some l"
    show "l \<le> M"
    proof (cases k)
      case 0
      with l p head m'M show ?thesis by auto
    next
      case (Suc j)
      with k l le show ?thesis by auto
    qed
  qed
  have shift: "\<exists>k < length (p # tp). fst ((p # tp) ! k) = T \<and>
        snd ((p # tp) ! k) source i = Some M \<and>
        (\<forall>k' < k. \<forall>l. snd ((p # tp) ! k') source i = Some l \<longrightarrow> l < M)"
    if lt: "m' < M" and ex: "\<exists>k < length tp. fst (tp ! k) = T \<and> snd (tp ! k) source i = Some M \<and>
                 (\<forall>k' < k. \<forall>l. snd (tp ! k') source i = Some l \<longrightarrow> l < M)"
  proof -
    from ex obtain k where k: "k < length tp" "fst (tp ! k) = T" "snd (tp ! k) source i = Some M"
      "\<forall>k' < k. \<forall>l. snd (tp ! k') source i = Some l \<longrightarrow> l < M" by blast
    have "\<forall>k' < Suc k. \<forall>l. snd ((p # tp) ! k') source i = Some l \<longrightarrow> l < M"
    proof (intro allI impI)
      fix k' l assume k': "k' < Suc k" and l: "snd ((p # tp) ! k') source i = Some l"
      show "l < M"
      proof (cases k')
        case 0
        with l p head lt show ?thesis by auto
      next
        case (Suc j)
        with k' l k(4) show ?thesis by auto
      qed
    qed
    with k show ?thesis by (intro exI [of _ "Suc k"]) simp
  qed
  have "(M = m \<and> T = t) \<or>
    (m < M \<and> (\<exists>k < length (p # tp). fst ((p # tp) ! k) = T \<and>
        snd ((p # tp) ! k) source i = Some M \<and>
        (\<forall>k' < k. \<forall>l. snd ((p # tp) ! k') source i = Some l \<longrightarrow> l < M)))"
  proof (cases "m' = m \<and> t' = t")
    case True
    with IH shift show ?thesis by auto
  next
    case False
    with step p have new: "sc source i = Some m'" "m < m'" "t' = tok"
      by (auto simp: scan_step_def split: option.splits if_splits)
    from IH consider "M = m'" "T = t'" | "m' < M" "\<exists>k < length tp. fst (tp ! k) = T \<and> snd (tp ! k) source i = Some M \<and>
                 (\<forall>k' < k. \<forall>l. snd (tp ! k') source i = Some l \<longrightarrow> l < M)" by blast
    then show ?thesis
    proof cases
      case 1
      with new p have "fst ((p # tp) ! 0) = T \<and> snd ((p # tp) ! 0) source i = Some M" by simp
      then have "\<exists>k < length (p # tp). fst ((p # tp) ! k) = T \<and>
        snd ((p # tp) ! k) source i = Some M \<and>
        (\<forall>k' < k. \<forall>l. snd ((p # tp) ! k') source i = Some l \<longrightarrow> l < M)"
        by (intro exI [of _ 0]) simp
      with 1 new show ?thesis by simp
    next
      case 2
      with shift new show ?thesis by auto
    qed
  qed
  with bound show ?case by simp
qed


lemma scan_token_cases:
  assumes i: "i < length source"
    and fold: "fold (scan_step source i) (token_parsers syn) (- 1, Some ''???'') = (M, T)"
  shows "scan_token syn source i =
           (if M = - 1 then Inl (ValueError_unrecognized_token i)
            else Inr (T, (i, nat (int i + M))))"
  using i fold by (simp add: scan_token_def)

text \<open>
  Claim C6. At or past the end of the source \<^verbatim>\<open>scan_token\<close> returns the null terminal
  with the empty span at the offset. Before the end, with scanners that report no
  negative length: the result is the \<^verbatim>\<open>ValueError\<close> "Unrecognized token" at the offset
  exactly when every scanner reports no match, no other error is possible, and otherwise
  the token returned is that of the earliest registered scanner among those reporting the
  greatest length (which may be zero), with the span from the offset over that length.
\<close>

theorem scan_token_longest_match:
  "(length source \<le> i \<longrightarrow> scan_token syn source i = Inr (None, (i, i))) \<and>
   (i < length source \<and> list_all (\<lambda>(t, r). r = None \<or> (\<exists>l \<ge> 0. r = Some l)) (scan_results syn source i) \<longrightarrow>
      ((scan_token syn source i = Inl (ValueError_unrecognized_token i)) =
         list_all (\<lambda>(t, r). r = None) (scan_results syn source i)) \<and>
      (\<forall>e. scan_token syn source i = Inl e \<longrightarrow> e = ValueError_unrecognized_token i) \<and>
      (\<forall>k l. k < length (scan_results syn source i) \<and>
             snd (scan_results syn source i ! k) = Some l \<and>
             list_all (\<lambda>(t, r). \<forall>l'. r = Some l' \<longrightarrow> l' \<le> l) (scan_results syn source i) \<and>
             list_all (\<lambda>(t, r). r \<noteq> Some l) (take k (scan_results syn source i)) \<longrightarrow>
             scan_token syn source i =
               Inr (fst (scan_results syn source i ! k), (i, i + nat l))))"
proof (intro conjI impI)
  assume "length source \<le> i"
  then show "scan_token syn source i = Inr (None, (i, i))" by (simp add: scan_token_def)
next
  let ?tp = "token_parsers syn"
  let ?rs = "scan_results syn source i"
  assume hyp: "i < length source \<and> list_all (\<lambda>(t, r). r = None \<or> (\<exists>l \<ge> 0. r = Some l)) ?rs"
  then have i: "i < length source" by simp
  have len: "length ?rs = length ?tp" by (simp add: scan_results_def)
  have nth: "\<And>k. k < length ?tp \<Longrightarrow> ?rs ! k = (fst (?tp ! k), snd (?tp ! k) source i)"
    by (simp add: scan_results_def case_prod_beta)
  from hyp have nonneg: "\<And>k l. k < length ?tp \<Longrightarrow> snd (?tp ! k) source i = Some l \<Longrightarrow> 0 \<le> l"
  proof -
    fix k l assume k: "k < length ?tp" and l: "snd (?tp ! k) source i = Some l"
    from hyp have "list_all (\<lambda>(t, r). r = None \<or> (\<exists>l \<ge> 0. r = Some l)) ?rs" by simp
    with k len have "case ?rs ! k of (t, r) \<Rightarrow> r = None \<or> (\<exists>l \<ge> 0. r = Some l)"
      by (simp add: list_all_length)
    with k l show "0 \<le> l" by (simp add: nth)
  qed
  obtain M T where fold: "fold (scan_step source i) ?tp (- 1, Some ''???'') = (M, T)"
    by (cases "fold (scan_step source i) ?tp (- 1, Some ''???'')")
  note res = scan_token_cases [OF i fold]
  note inv = fold_scan_step [OF fold]
  from inv have bound: "\<And>k l. k < length ?tp \<Longrightarrow> snd (?tp ! k) source i = Some l \<Longrightarrow> l \<le> M"
    by blast
  from inv consider (none) "M = - 1" "T = Some ''???''"
    | (some) k where "- 1 < M" "k < length ?tp" "fst (?tp ! k) = T"
        "snd (?tp ! k) source i = Some M"
        "\<forall>k' < k. \<forall>l. snd (?tp ! k') source i = Some l \<longrightarrow> l < M"
    by blast
  note cases = this
  have none_iff: "M = - 1 \<longleftrightarrow> list_all (\<lambda>(t, r). r = None) ?rs"
  proof
    assume M: "M = - 1"
    have "\<And>k. k < length ?tp \<Longrightarrow> snd (?tp ! k) source i = None"
    proof (rule ccontr)
      fix k assume k: "k < length ?tp" and "snd (?tp ! k) source i \<noteq> None"
      then obtain l where l: "snd (?tp ! k) source i = Some l" by auto
      with k have "0 \<le> l" "l \<le> M" using nonneg bound by blast+
      with M show False by simp
    qed
    then show "list_all (\<lambda>(t, r). r = None) ?rs"
      by (simp add: list_all_length len nth)
  next
    assume all: "list_all (\<lambda>(t, r). r = None) ?rs"
    show "M = - 1"
    proof (cases rule: cases)
      case none
      then show ?thesis by simp
    next
      case (some k)
      from all some(2) len have "case ?rs ! k of (t, r) \<Rightarrow> r = None"
        by (simp add: list_all_length)
      with some show ?thesis by (simp add: nth)
    qed
  qed
  show "(scan_token syn source i = Inl (ValueError_unrecognized_token i)) =
         list_all (\<lambda>(t, r). r = None) ?rs"
    using res none_iff by auto
  show "\<forall>e. scan_token syn source i = Inl e \<longrightarrow> e = ValueError_unrecognized_token i"
    using res by (auto split: if_splits)
  show "\<forall>k l. k < length ?rs \<and> snd (?rs ! k) = Some l \<and>
             list_all (\<lambda>(t, r). \<forall>l'. r = Some l' \<longrightarrow> l' \<le> l) ?rs \<and>
             list_all (\<lambda>(t, r). r \<noteq> Some l) (take k ?rs) \<longrightarrow>
             scan_token syn source i = Inr (fst (?rs ! k), (i, i + nat l))"
  proof (intro allI impI)
    fix k l
    assume a: "k < length ?rs \<and> snd (?rs ! k) = Some l \<and>
             list_all (\<lambda>(t, r). \<forall>l'. r = Some l' \<longrightarrow> l' \<le> l) ?rs \<and>
             list_all (\<lambda>(t, r). r \<noteq> Some l) (take k ?rs)"
    then have k: "k < length ?tp" by (simp add: len)
    from a have l: "snd (?tp ! k) source i = Some l" using nth [OF k] by simp
    from a have maxl: "\<And>k' l'. k' < length ?tp \<Longrightarrow> snd (?tp ! k') source i = Some l' \<Longrightarrow> l' \<le> l"
    proof -
      fix k' l' assume k': "k' < length ?tp" and l': "snd (?tp ! k') source i = Some l'"
      from a have "list_all (\<lambda>(t, r). \<forall>l'. r = Some l' \<longrightarrow> l' \<le> l) ?rs" by simp
      with k' len have "case ?rs ! k' of (t, r) \<Rightarrow> \<forall>l'. r = Some l' \<longrightarrow> l' \<le> l"
        by (simp add: list_all_length)
      with k' l' show "l' \<le> l" by (simp add: nth)
    qed
    from a have first: "\<And>k'. k' < k \<Longrightarrow> snd (?tp ! k') source i \<noteq> Some l"
    proof -
      fix k' assume k': "k' < k"
      from a have "list_all (\<lambda>(t, r). r \<noteq> Some l) (take k ?rs)" by simp
      with k' k len have "case ?rs ! k' of (t, r) \<Rightarrow> r \<noteq> Some l"
        by (simp add: list_all_length)
      with k' k show "snd (?tp ! k') source i \<noteq> Some l" by (simp add: nth)
    qed
    from k l have l0: "0 \<le> l" by (rule nonneg)
    from k l have lM: "l \<le> M" by (rule bound)
    show "scan_token syn source i = Inr (fst (?rs ! k), (i, i + nat l))"
    proof (cases rule: cases)
      case none
      with l0 lM show ?thesis by simp
    next
      case (some k0)
      from some(2,4) have "M \<le> l" by (rule maxl)
      with lM have M: "M = l" by simp
      have "k0 = k"
      proof (rule ccontr)
        assume "k0 \<noteq> k"
        then consider "k0 < k" | "k < k0" by linarith
        then show False
        proof cases
          case 1
          from first [OF 1] some(4) M show False by simp
        next
          case 2
          with some(5) l M show False by auto
        qed
      qed
      with some(3) M l0 k show ?thesis by (simp add: res nth nat_add_distrib)
    qed
  qed
qed


theorem scan_token_longest_match_witness:
  "scan_token (from_rules [Rule (Some ''s'') [''if'', ''iff'', ''i'']]
                 [(Some ''i'', get_keyword_parser ''if'')]) ''iff'' 3 = Inr (None, (3, 3)) \<and>
   scan_token (from_rules [Rule (Some ''s'') [''if'', ''iff'', ''i'']]
                 [(Some ''i'', get_keyword_parser ''if'')]) ''x'' 0 =
     Inl (ValueError_unrecognized_token 0) \<and>
   scan_token (from_rules [Rule (Some ''s'') [''if'', ''iff'', ''i'']]
                 [(Some ''i'', get_keyword_parser ''if'')]) ''iff'' 0 = Inr (Some ''iff'', (0, 3)) \<and>
   scan_token (from_rules [Rule (Some ''s'') [''if'', ''iff'', ''i'']]
                 [(Some ''i'', get_keyword_parser ''if'')]) ''ifx'' 0 = Inr (Some ''if'', (0, 2))"
proof -
  define syn where "syn = from_rules [Rule (Some ''s'') [''if'', ''iff'', ''i'']]
                 [(Some ''i'', get_keyword_parser ''if'')]"
  have r1: "scan_results syn ''x'' 0 = [(Some ''if'', None), (Some ''iff'', None), (Some ''i'', None)]"
    unfolding syn_def by code_simp
  have r2: "scan_results syn ''iff'' 0 =
      [(Some ''if'', Some 2), (Some ''iff'', Some 3), (Some ''i'', Some 2)]"
    unfolding syn_def by code_simp
  have r3: "scan_results syn ''ifx'' 0 =
      [(Some ''if'', Some 2), (Some ''iff'', None), (Some ''i'', Some 2)]"
    unfolding syn_def by code_simp
  have "length ''iff'' \<le> 3" by simp
  with scan_token_longest_match [of "''iff''" 3 syn]
  have a: "scan_token syn ''iff'' 3 = Inr (None, (3, 3))" by blast
  have h1: "0 < length ''x'' \<and>
      list_all (\<lambda>(t, r). r = None \<or> (\<exists>l \<ge> 0. r = Some l)) (scan_results syn ''x'' 0)"
    by (simp add: r1)
  have "list_all (\<lambda>(t, r). r = None) (scan_results syn ''x'' 0)" by (simp add: r1)
  with scan_token_longest_match [of "''x''" 0 syn] h1
  have b: "scan_token syn ''x'' 0 = Inl (ValueError_unrecognized_token 0)" by blast
  have h2: "0 < length ''iff'' \<and>
      list_all (\<lambda>(t, r). r = None \<or> (\<exists>l \<ge> 0. r = Some l)) (scan_results syn ''iff'' 0)"
    by (simp add: r2)
  have k2: "1 < length (scan_results syn ''iff'' 0) \<and>
             snd (scan_results syn ''iff'' 0 ! 1) = Some 3 \<and>
             list_all (\<lambda>(t, r). \<forall>l'. r = Some l' \<longrightarrow> l' \<le> 3) (scan_results syn ''iff'' 0) \<and>
             list_all (\<lambda>(t, r). r \<noteq> Some 3) (take 1 (scan_results syn ''iff'' 0))"
    by (simp add: r2)
  from scan_token_longest_match [of "''iff''" 0 syn] h2 k2
  have "scan_token syn ''iff'' 0 = Inr (fst (scan_results syn ''iff'' 0 ! 1), (0, 0 + nat 3))"
    by blast
  then have c: "scan_token syn ''iff'' 0 = Inr (Some ''iff'', (0, 3))" by (simp add: r2)
  have h3: "0 < length ''ifx'' \<and>
      list_all (\<lambda>(t, r). r = None \<or> (\<exists>l \<ge> 0. r = Some l)) (scan_results syn ''ifx'' 0)"
    by (simp add: r3)
  have k3: "0 < length (scan_results syn ''ifx'' 0) \<and>
             snd (scan_results syn ''ifx'' 0 ! 0) = Some 2 \<and>
             list_all (\<lambda>(t, r). \<forall>l'. r = Some l' \<longrightarrow> l' \<le> 2) (scan_results syn ''ifx'' 0) \<and>
             list_all (\<lambda>(t, r). r \<noteq> Some 2) (take 0 (scan_results syn ''ifx'' 0))"
    by (simp add: r3)
  from scan_token_longest_match [of "''ifx''" 0 syn] h3 k3
  have "scan_token syn ''ifx'' 0 = Inr (fst (scan_results syn ''ifx'' 0 ! 0), (0, 0 + nat 2))"
    by blast
  then have d: "scan_token syn ''ifx'' 0 = Inr (Some ''if'', (0, 2))" by (simp add: r3)
  from a b c d show ?thesis unfolding syn_def by simp
qed

section \<open>The parser of \<^verbatim>\<open>rat.py\<close>\<close>


text \<open>
  Claim C1 at its own input. The shorthand \<^verbatim>\<open>"stmts identifier  =  expr"\<close> has two
  spaces on each side of \<^verbatim>\<open>=\<close>, so the body of the rule is \<^verbatim>\<open>identifier\<close>, the
  empty-named terminal (the skip-spaces scanner), \<^verbatim>\<open>=\<close>, the empty-named terminal,
  \<^verbatim>\<open>expr\<close>. After \<^verbatim>\<open>x\<close> is shifted the automaton expects the empty-named terminal, but
  at offset 1 the scanner for \<^verbatim>\<open>=\<close> reports length 1 and wins over the length 0 of the
  skip-spaces scanner: \<^verbatim>\<open>parse("x=fuy")\<close> raises the \<^verbatim>\<open>ValueError\<close> "Unexpected token at
  [1..1]: '='", expecting the empty-named terminal, and returns no tree.
\<close>

theorem rat_parse_x_eq_fuy:
  "rat_parse ''x=fuy'' =
     Some (Inl (ValueError_unexpected_token (1, 2) (Some ''='') [Some []]))"
  by code_simp

text \<open>The pieces of that run, the parse of a text with spaces (five children under
  the root), and \<^verbatim>\<open>parse_identifier\<close> consuming two of the three letters of
  \<^verbatim>\<open>fuy\<close>.\<close>

lemma rat_rules_split:
  "from_description_rules rat_rules =
     Inr [Rule (Some ''stmts'') [''identifier'', [], ''='', [], ''expr''],
          Rule (Some ''expr'') [''identifier'']]"
  by code_simp

lemma rat_scan_second_token:
  "(case from_description rat_rules rat_token_parsers of
      Inl e \<Rightarrow> [] | Inr syn \<Rightarrow> scan_results syn ''x=fuy'' 1) =
   [(Some ''identifier'', None), (Some [], Some 0), (Some ''='', Some 1)]"
  by code_simp

lemma rat_parse_spaced:
  "rat_parse ''x = fu'' =
     Some (Inr (Node (Some ''stmts'') (0, 6)
       (Inr [Node (Some ''identifier'') (0, 1) (Inl ''x''),
             Node (Some []) (1, 2) (Inl '' ''),
             Node (Some ''='') (2, 3) (Inl ''=''),
             Node (Some []) (3, 4) (Inl '' ''),
             Node (Some ''expr'') (4, 6)
               (Inr [Node (Some ''identifier'') (4, 6) (Inl ''fu'')])])))"
  by code_simp

lemma parse_identifier_two_characters:
  "parse_identifier ''fuy'' 0 = Some 2"
  by code_simp

section \<open>The driver\<close>

lemma shift_loop_diverges:
  assumes act: "map_of acts (s, tok) = Some (Shift s)"
    and scan: "scan_token syn source j = Inr (tok, (j, j))"
  shows "parse_loop syn acts gotos source (stack @ [State s]) tok (j, j) = None"
proof (rule ccontr)
  assume "parse_loop syn acts gotos source (stack @ [State s]) tok (j, j) \<noteq> None"
  then obtain y where ret: "parse_loop syn acts gotos source (stack @ [State s]) tok (j, j) = Some y"
    by auto
  have "\<not> (syn = syn \<and> acts = acts \<and> source = source \<and>
           (\<exists>st. stack @ [State s] = st @ [State s]) \<and> tok = tok \<and> (j, j) = (j, j))"
  proof (rule parse_loop.raw_induct
      [where P = "\<lambda>syn' acts' gotos' source' stack' tok' ij' y.
          \<not> (syn' = syn \<and> acts' = acts \<and> source' = source \<and>
             (\<exists>st. stack' = st @ [State s]) \<and> tok' = tok \<and> ij' = (j, j))", OF _ ret])
    fix f syn' acts' gotos' source' stack' tok' ij' y'
    assume IH: "\<And>syn' acts' gotos' source' stack' tok' ij' y.
        f syn' acts' gotos' source' stack' tok' ij' = Some y \<Longrightarrow>
        \<not> (syn' = syn \<and> acts' = acts \<and> source' = source \<and>
             (\<exists>st. stack' = st @ [State s]) \<and> tok' = tok \<and> ij' = (j, j))"
      and step: "(if stack' = [] then Some (Inl IndexError_stack)
      else
        (case lookup_action acts' (last stack') tok' of
           None \<Rightarrow>
             Some (Inl (ValueError_unexpected_token ij' tok' (expected acts' (last stack'))))
         | Some (Shift state) \<Rightarrow>
             (case scan_token syn' source' (snd ij') of
                Inl e \<Rightarrow> Some (Inl e)
              | Inr (token', ij'') \<Rightarrow>
                  f syn' acts' gotos' source'
                    (stack' @ [Tree (Node tok' ij' (Inl (slice source' (fst ij') (snd ij')))),
                              State state])
                    token' ij'')
         | Some (Reduce r) \<Rightarrow>
             (case reduce gotos' r stack' of
                Inl e \<Rightarrow> Some (Inl e)
              | Inr stack'' \<Rightarrow> f syn' acts' gotos' source' stack'' tok' ij')
         | Some Accept \<Rightarrow>
             (case stack' of
                c # Tree n # cs \<Rightarrow> Some (Inr n)
              | c # State s # cs \<Rightarrow> Some (Inl AttributeError_span)
              | _ \<Rightarrow> Some (Inl IndexError_stack)))) = Some y'"
    show "\<not> (syn' = syn \<and> acts' = acts \<and> source' = source \<and>
             (\<exists>st. stack' = st @ [State s]) \<and> tok' = tok \<and> ij' = (j, j))"
    proof
      assume inv: "syn' = syn \<and> acts' = acts \<and> source' = source \<and>
             (\<exists>st. stack' = st @ [State s]) \<and> tok' = tok \<and> ij' = (j, j)"
      then obtain st where st: "stack' = st @ [State s]" by blast
      from inv st act have look: "lookup_action acts' (last stack') tok' = Some (Shift s)"
        by (simp add: lookup_action_def)
      from step inv st look scan
      have "f syn acts gotos' source
              ((st @ [State s]) @ [Tree (Node tok (j, j) (Inl (slice source j j))), State s])
              tok (j, j) = Some y'"
        by simp
      from IH [OF this] show False by simp
    qed
  qed
  then show False by simp
qed

text \<open>
  Claim C4 as stated fails. The rules \<^verbatim>\<open>"s  s"\<close> and \<^verbatim>\<open>"s x"\<close> (\<open>s\<close> is the
  empty-named terminal followed by \<open>s\<close>, or \<^verbatim>\<open>x\<close>) give conflict-free tables. On the
  source \<^verbatim>\<open>"@"\<close> the skip-spaces scanner matches with length 0 at offset 0, the token is
  shifted, the next scan starts at offset 0 again, and the state it reaches shifts the
  same token to itself: \<^verbatim>\<open>parse\<close> never returns.
\<close>

theorem zero_length_shift_never_returns:
  "parse_description [Inl ''s  s'', Inl ''s x''] [] ''s'' ''@'' = None"
proof -
  obtain syn where syn: "from_description [Inl ''s  s'', Inl ''s x''] [] = Inr syn"
    and syn_def: "syn = from_rules [Rule (Some ''s'') [[], ''s''], Rule (Some ''s'') [''x'']] []"
    by (simp add: from_description_def split_str_def str_split_def)
  define acts :: actions where "acts =
     [((0, Some []), Shift 1), ((0, Some ''x''), Shift 3), ((1, Some []), Shift 1),
      ((1, Some ''x''), Shift 3), ((2, None), Accept),
      ((3, None), Reduce (Rule (Some ''s'') [''x''])),
      ((4, None), Reduce (Rule (Some ''s'') [[], ''s'']))]"
  define gotos :: gotos where "gotos = snd (item_sets_and_gotos syn (rules syn) (prefixes syn) ''s'')"
  have tables: "actions syn (rules syn) (prefixes syn)
      (fst (item_sets_and_gotos syn (rules syn) (prefixes syn) ''s'')) gotos = Inr acts"
    unfolding syn_def acts_def gotos_def by code_simp
  have scan: "scan_token syn ''@'' 0 = Inr (Some [], (0, 0))"
    unfolding syn_def by code_simp
  have a0: "map_of acts (0, Some []) = Some (Shift 1)" by (simp add: acts_def)
  have a1: "map_of acts (1, Some []) = Some (Shift 1)" by (simp add: acts_def)
  have "parse_loop syn acts gotos ''@'' [State 0] (Some []) (0, 0) =
        parse_loop syn acts gotos ''@''
          ([State 0, Tree (Node (Some []) (0, 0) (Inl (slice ''@'' 0 0)))] @ [State 1])
          (Some []) (0, 0)"
    by (subst parse_loop.simps) (simp add: lookup_action_def a0 scan)
  also have "\<dots> = None" using a1 scan by (rule shift_loop_diverges)
  finally have loop: "parse_loop syn acts gotos ''@'' [State 0] (Some []) (0, 0) = None" .
  have "parse syn ''s'' ''@'' 0 = None"
    using tables scan loop by (simp add: parse_def gotos_def case_prod_beta Let_def)
  with syn show ?thesis by (simp add: parse_description_def)
qed

lemma scan_token_span:
  assumes "scan_token syn source i = Inr (tok, ij)"
  shows "fst ij = i \<and> fst ij \<le> snd ij"
proof (cases "i < length source")
  case False
  with assms show ?thesis by (auto simp: scan_token_def)
next
  case True
  obtain M T where fold: "fold (scan_step source i) (token_parsers syn) (- 1, Some ''???'') = (M, T)"
    by (cases "fold (scan_step source i) (token_parsers syn) (- 1, Some ''???'')")
  from fold_scan_step [OF fold] have "- 1 \<le> M" by auto
  with assms True fold show ?thesis
    by (auto simp: scan_token_cases [OF True fold] split: if_splits)
qed

lemma scan_token_Some:
  "scan_token syn source i = Inr (Some t, ij) \<Longrightarrow> i < length source"
  by (auto simp: scan_token_def Let_def split: if_splits prod.splits)

lemma reduce_length:
  assumes "reduce gotos r stack = Inr stack'" and "body r \<noteq> []"
  shows "length stack' + 2 * length (body r) = length stack + 2"
proof -
  let ?n = "length (body r) * 2"
  from assms(2) have n: "?n \<noteq> 0" by simp
  from assms(1) n have ne: "take (length stack - ?n) stack \<noteq> []"
    by (auto simp: reduce_def Let_def split: if_splits)
  then have le: "?n < length stack" by (cases "?n < length stack") auto
  from assms(1) n ne have "length stack' = length (take (length stack - ?n) stack) + 2"
    by (auto simp: reduce_def Let_def split: if_splits option.splits list.splits)
  with le show ?thesis by simp
qed

lemma parse_loop_terminates:
  assumes long: "reduces_long_rules acts"
    and shifts: "shifts_tokens_only acts"
    and nonempty: "tokens_nonempty syn source"
  shows "scan_token syn source (fst ij) = Inr (token, ij) \<Longrightarrow>
         \<exists>res. parse_loop syn acts gotos source stack token ij = Some res"
proof (induction "3 * (length source - fst ij) + length stack"
    arbitrary: stack token ij rule: less_induct)
  case less
  note scanned = less.prems
  show ?case
  proof (cases "stack = []")
    case True
    then show ?thesis by (subst parse_loop.simps) simp
  next
    case False
    show ?thesis
    proof (cases "lookup_action acts (last stack) token")
      case None
      with False show ?thesis by (subst parse_loop.simps) simp
    next
      case (Some a)
      then obtain s where top: "last stack = State s" and entry: "map_of acts (s, token) = Some a"
        by (auto simp: lookup_action_def split: cell.splits)
      from entry have mem: "((s, token), a) \<in> set acts" by (rule map_of_SomeD)
      show ?thesis
      proof (cases a)
        case Accept
        with False Some show ?thesis
          by (subst parse_loop.simps) (simp split: list.splits cell.splits)
      next
        case (Reduce r)
        from long mem Reduce have n: "2 \<le> length (body r)"
          by (auto simp: reduces_long_rules_def list_all_iff)
        show ?thesis
        proof (cases "reduce gotos r stack")
          case (Inl e)
          with False Some Reduce show ?thesis by (subst parse_loop.simps) simp
        next
          case (Inr stack')
          from n have "body r \<noteq> []" by auto
          from reduce_length [OF Inr this] n have "length stack' < length stack" by simp
          then have "3 * (length source - fst ij) + length stack'
              < 3 * (length source - fst ij) + length stack" by simp
          from less.hyps [OF this scanned]
          obtain res where "parse_loop syn acts gotos source stack' token ij = Some res" by blast
          with False Some Reduce Inr show ?thesis by (subst parse_loop.simps) simp
        qed
      next
        case (Shift st)
        from shifts mem Shift have "token \<noteq> None"
          by (force simp: shifts_tokens_only_def list_all_iff)
        then obtain t where t: "token = Some t" by auto
        from scanned t have inside: "fst ij < length source" by (auto dest: scan_token_Some)
        from nonempty inside have
          "case scan_token syn source (fst ij) of Inr (Some t, (a, b)) \<Rightarrow> a < b | _ \<Rightarrow> True"
          by (simp add: tokens_nonempty_def list_all_iff)
        with scanned t have consumed: "fst ij < snd ij" by (cases ij) simp
        show ?thesis
        proof (cases "scan_token syn source (snd ij)")
          case (Inl e)
          with False Some Shift show ?thesis by (subst parse_loop.simps) simp
        next
          case (Inr next_token)
          obtain token' ij' where nt: "next_token = (token', ij')" by (cases next_token)
          from Inr nt have start: "fst ij' = snd ij" by (auto dest: scan_token_span)
          let ?stack = "stack @ [Tree (Node token ij (Inl (slice source (fst ij) (snd ij)))),
                              State st]"
          from inside consumed start have
            "3 * (length source - fst ij') + length ?stack
              < 3 * (length source - fst ij) + length stack" by simp
          moreover from Inr nt start have "scan_token syn source (fst ij') = Inr (token', ij')"
            by simp
          ultimately obtain res where
            "parse_loop syn acts gotos source ?stack token' ij' = Some res"
            using less.hyps by blast
          with False Some Shift Inr nt show ?thesis by (subst parse_loop.simps) simp
        qed
      qed
    qed
  qed
qed


lemma put_actions_subset:
  "put_actions entries acts = Inr acts' \<Longrightarrow> set acts' \<subseteq> set acts \<union> set entries"
proof (induction entries arbitrary: acts)
  case Nil
  then show ?case by simp
next
  case (Cons e entries)
  obtain key a where e: "e = (key, a)" by (cases e)
  from Cons.prems e have absent: "\<not> dict_contains acts key"
    and rest: "put_actions entries (AList.update key a acts) = Inr acts'"
    by (auto split: if_splits)
  from absent have "AList.update key a acts = acts @ [(key, a)]"
    by (simp add: dict_contains_def update_absent)
  with Cons.IH [OF rest] e show ?case by auto
qed

lemma tokens_are_strings: "tok \<in> set (tokens syn) \<Longrightarrow> tok \<noteq> None"
proof
  assume tok: "tok \<in> set (tokens syn)" and none: "tok = None"
  have fk: "\<And>xs :: symbol list. set (dict_fromkeys xs) = set xs"
  proof -
    fix xs :: "symbol list"
    have "\<And>acc. set (fold (\<lambda>x acc. if x \<in> set acc then acc else acc @ [x]) xs acc) = set acc \<union> set xs"
      by (induction xs) auto
    then show "set (dict_fromkeys xs) = set xs" by (simp add: dict_fromkeys_def)
  qed
  have up: "\<And>xs ys :: symbol list. set (oset_update xs ys) = set xs \<union> set ys"
  proof -
    fix xs ys :: "symbol list"
    have "\<And>acc. set (fold (\<lambda>v xs. oset_add xs v) ys acc) = set acc \<union> set ys"
      by (induction ys) (auto simp: oset_add_def)
    then show "set (oset_update xs ys) = set xs \<union> set ys" by (simp add: oset_update_def)
  qed
  from tok have "tok \<in> set (symbols syn)" "tok \<notin> set (nodes syn)"
    by (auto simp: tokens_def fk)
  then have "tok \<in> set (concat (map (\<lambda>r. map Some (body r)) (rule_list syn)))"
    by (auto simp: symbols_def up fk)
  with none show False by auto
qed

lemma actions_shifts_tokens_only:
  assumes "actions syn R P item_sets gotos = Inr acts"
  shows "shifts_tokens_only acts"
proof -
  from assms have sub: "set acts \<subseteq> set (action_entries syn R P item_sets gotos)"
    using put_actions_subset [of "action_entries syn R P item_sets gotos" "[]" acts]
    by (simp add: actions_def)
  have "tok \<noteq> None" if "((s, tok), Shift st) \<in> set acts" for s tok st
  proof -
    from that sub have "((s, tok), Shift st) \<in> set (action_entries syn R P item_sets gotos)"
      by blast
    then obtain i where "((s, tok), Shift st) \<in> set (shift_entries syn gotos i)"
      by (auto simp: action_entries_def reduce_entries_def split: if_splits)
    then have "tok \<in> set (tokens syn)"
      by (auto simp: shift_entries_def split: option.splits if_splits)
    then show ?thesis by (rule tokens_are_strings)
  qed
  then show ?thesis
    by (auto simp: shifts_tokens_only_def list_all_iff split: action.splits)
qed

text \<open>
  Claim C4, as the code has it. A shift appends the leaf and the target state and scans
  on from the end of the shifted token's span: it consumes the length of the token, which
  is nothing for a token of length zero. A reduce of a rule with \<open>n \<ge> 1\<close> body symbols that
  succeeds replaces the top \<open>2 * n\<close> cells by two. When the tables are conflict-free, every
  rule they reduce has at least two body symbols and every token recognised in the source
  is non-empty, \<^verbatim>\<open>parse\<close> returns: a tree or an exception.
\<close>

theorem parse_progress:
  "(stack \<noteq> [] \<and> lookup_action acts (last stack) token = Some (Shift st) \<and>
      scan_token syn source (snd ij) = Inr (token', ij') \<longrightarrow>
      parse_loop syn acts gotos source stack token ij =
        parse_loop syn acts gotos source
          (stack @ [Tree (Node token ij (Inl (slice source (fst ij) (snd ij)))), State st])
          token' ij' \<and>
      fst ij' = snd ij) \<and>
   (stack \<noteq> [] \<and> lookup_action acts (last stack) token = Some (Reduce r) \<and> body r \<noteq> [] \<and>
      reduce gotos r stack = Inr stack' \<longrightarrow>
      parse_loop syn acts gotos source stack token ij =
        parse_loop syn acts gotos source stack' token ij \<and>
      length stack' + 2 * length (body r) = length stack + 2) \<and>
   (actions syn (rules syn) (prefixes syn)
        (fst (item_sets_and_gotos syn (rules syn) (prefixes syn) root_node))
        (snd (item_sets_and_gotos syn (rules syn) (prefixes syn) root_node)) = Inr tbl \<and>
      reduces_long_rules tbl \<and> tokens_nonempty syn source \<longrightarrow>
      (\<exists>res. parse syn root_node source offset = Some res))"
proof (intro conjI impI)
  assume a: "stack \<noteq> [] \<and> lookup_action acts (last stack) token = Some (Shift st) \<and>
      scan_token syn source (snd ij) = Inr (token', ij')"
  then show "parse_loop syn acts gotos source stack token ij =
        parse_loop syn acts gotos source
          (stack @ [Tree (Node token ij (Inl (slice source (fst ij) (snd ij)))), State st])
          token' ij'"
    by (subst parse_loop.simps) simp
  from a show "fst ij' = snd ij" by (auto dest: scan_token_span)
next
  assume a: "stack \<noteq> [] \<and> lookup_action acts (last stack) token = Some (Reduce r) \<and>
      body r \<noteq> [] \<and> reduce gotos r stack = Inr stack'"
  then show "parse_loop syn acts gotos source stack token ij =
        parse_loop syn acts gotos source stack' token ij"
    by (subst parse_loop.simps) simp
  from a have "reduce gotos r stack = Inr stack'" "body r \<noteq> []" by simp_all
  then show "length stack' + 2 * length (body r) = length stack + 2"
    by (rule reduce_length)
next
  let ?IG = "item_sets_and_gotos syn (rules syn) (prefixes syn) root_node"
  assume a: "actions syn (rules syn) (prefixes syn) (fst ?IG) (snd ?IG) = Inr tbl \<and>
      reduces_long_rules tbl \<and> tokens_nonempty syn source"
  then have shifts: "shifts_tokens_only tbl" by (auto dest: actions_shifts_tokens_only)
  show "\<exists>res. parse syn root_node source offset = Some res"
  proof (cases "scan_token syn source offset")
    case (Inl e)
    then show ?thesis by (simp add: parse_def)
  next
    case (Inr first)
    obtain token0 ij0 where first: "first = (token0, ij0)" by (cases first)
    from Inr first have "fst ij0 = offset" by (auto dest: scan_token_span)
    with Inr first have "scan_token syn source (fst ij0) = Inr (token0, ij0)" by simp
    with a shifts obtain res where
      "parse_loop syn tbl (snd ?IG) source [State 0] token0 ij0 = Some res"
      using parse_loop_terminates [of tbl syn source ij0 token0 "snd ?IG" "[State 0]"] by blast
    with Inr first a show ?thesis by (simp add: parse_def case_prod_beta Let_def)
  qed
qed

theorem parse_progress_witness:
  "reduces_long_rules
     [((0, Some ''a''), Shift 1), ((1, Some ''b''), Shift 3), ((2, None), Accept),
      ((3, None), Reduce (Rule (Some ''s'') [''a'', ''b'']))] \<and>
   tokens_nonempty (from_rules [Rule (Some ''s'') [''a'', ''b'']] []) ''ab'' \<and>
   (\<exists>res. parse (from_rules [Rule (Some ''s'') [''a'', ''b'']] []) ''s'' ''ab'' 0 = Some res) \<and>
   parse_loop (from_rules [Rule (Some ''s'') [''a'', ''b'']] [])
     [((0, Some ''a''), Shift 1), ((1, Some ''b''), Shift 3), ((2, None), Accept),
      ((3, None), Reduce (Rule (Some ''s'') [''a'', ''b'']))]
     [((0, Some ''a''), 1), ((0, Some ''s''), 2), ((1, Some ''b''), 3)]
     ''ab'' [State 0] (Some ''a'') (0, 1) =
   parse_loop (from_rules [Rule (Some ''s'') [''a'', ''b'']] [])
     [((0, Some ''a''), Shift 1), ((1, Some ''b''), Shift 3), ((2, None), Accept),
      ((3, None), Reduce (Rule (Some ''s'') [''a'', ''b'']))]
     [((0, Some ''a''), 1), ((0, Some ''s''), 2), ((1, Some ''b''), 3)]
     ''ab'' [State 0, Tree (Node (Some ''a'') (0, 1) (Inl ''a'')), State 1] (Some ''b'') (1, 2) \<and>
   length [State 0, Tree (Node (Some ''s'') (0, 2)
             (Inr [Node (Some ''a'') (0, 1) (Inl ''a''), Node (Some ''b'') (1, 2) (Inl ''b'')])),
           State 2] + 2 * length [''a'', ''b''] =
   length [State 0, Tree (Node (Some ''a'') (0, 1) (Inl ''a'')), State 1,
           Tree (Node (Some ''b'') (1, 2) (Inl ''b'')), State 3] + 2"
proof -
  define syn where "syn = from_rules [Rule (Some ''s'') [''a'', ''b'']] []"
  define tbl :: actions where "tbl =
     [((0, Some ''a''), Shift 1), ((1, Some ''b''), Shift 3), ((2, None), Accept),
      ((3, None), Reduce (Rule (Some ''s'') [''a'', ''b'']))]"
  define gotos :: gotos where "gotos = [((0, Some ''a''), 1), ((0, Some ''s''), 2), ((1, Some ''b''), 3)]"
  define r where "r = Rule (Some ''s'') [''a'', ''b'']"
  define stack3 where "stack3 = [State 0, Tree (Node (Some ''a'') (0, 1) (Inl ''a'')), State 1,
           Tree (Node (Some ''b'') (1, 2) (Inl ''b'')), State 3]"
  define stack' where "stack' = [State 0, Tree (Node (Some ''s'') (0, 2)
             (Inr [Node (Some ''a'') (0, 1) (Inl ''a''), Node (Some ''b'') (1, 2) (Inl ''b'')])),
           State 2]"
  have tables: "actions syn (rules syn) (prefixes syn)
        (fst (item_sets_and_gotos syn (rules syn) (prefixes syn) ''s''))
        (snd (item_sets_and_gotos syn (rules syn) (prefixes syn) ''s'')) = Inr tbl"
    unfolding syn_def tbl_def by code_simp
  have long: "reduces_long_rules tbl" unfolding tbl_def by code_simp
  have nonempty: "tokens_nonempty syn ''ab''" unfolding syn_def by code_simp
  have scan1: "scan_token syn ''ab'' 1 = Inr (Some ''b'', (1, 2))" unfolding syn_def by code_simp
  have shift: "[State 0] \<noteq> [] \<and> lookup_action tbl (last [State 0]) (Some ''a'') = Some (Shift 1) \<and>
      scan_token syn ''ab'' (snd (0 :: nat, 1 :: nat)) = Inr (Some ''b'', (1, 2))"
    using scan1 by (simp add: lookup_action_def tbl_def)
  have red: "stack3 \<noteq> [] \<and> lookup_action tbl (last stack3) None = Some (Reduce r) \<and>
      body r \<noteq> [] \<and> reduce gotos r stack3 = Inr stack'"
    unfolding stack3_def tbl_def r_def gotos_def stack'_def by code_simp
  note inst1 = parse_progress [where stack = "[State 0]" and acts = tbl and token = "Some ''a''"
      and st = 1 and syn = syn and source = "''ab''" and ij = "(0, 1)" and token' = "Some ''b''"
      and ij' = "(1, 2)" and gotos = gotos and root_node = "''s''" and tbl = tbl and offset = 0]
  note inst2 = parse_progress [where stack = stack3 and acts = tbl and token = None
      and syn = syn and source = "''ab''" and ij = "(2, 2)" and r = r
      and gotos = gotos and stack' = stack']
  from inst1 tables long nonempty
  have terminates: "\<exists>res. parse syn ''s'' ''ab'' 0 = Some res" by blast
  from inst1 shift
  have step: "parse_loop syn tbl gotos ''ab'' [State 0] (Some ''a'') (0, 1) =
        parse_loop syn tbl gotos ''ab''
          ([State 0] @ [Tree (Node (Some ''a'') (0, 1) (Inl (slice ''ab'' (fst (0 :: nat, 1 :: nat)) (snd (0 :: nat, 1 :: nat))))), State 1])
          (Some ''b'') (1, 2)" by blast
  from inst2 red
  have len: "length stack' + 2 * length (body r) = length stack3 + 2" by blast
  from long nonempty terminates step len show ?thesis
    unfolding syn_def tbl_def gotos_def stack3_def stack'_def r_def
    by (simp add: slice_def)
qed

section \<open>Conflicts\<close>

lemma put_actions_distinct:
  "distinct (map fst acts @ map fst entries) \<Longrightarrow> put_actions entries acts = Inr (acts @ entries)"
proof (induction entries arbitrary: acts)
  case Nil
  then show ?case by simp
next
  case (Cons e entries)
  obtain key a where e: "e = (key, a)" by (cases e)
  from Cons.prems e have absent: "map_of acts key = None"
    by (auto simp: map_of_eq_None_iff)
  then have upd: "AList.update key a acts = acts @ [(key, a)]" by (rule update_absent)
  from Cons.prems e have "distinct (map fst (acts @ [(key, a)]) @ map fst entries)" by auto
  from Cons.IH [OF this] e absent upd show ?case by (simp add: dict_contains_def)
qed

lemma put_actions_conflict:
  "distinct (map fst acts) \<Longrightarrow> \<not> distinct (map fst acts @ map fst entries) \<Longrightarrow>
   put_actions entries acts = Inl AssertionError_conflict"
proof (induction entries arbitrary: acts)
  case Nil
  then show ?case by simp
next
  case (Cons e entries)
  obtain key a where e: "e = (key, a)" by (cases e)
  show ?case
  proof (cases "dict_contains acts key")
    case True
    with e show ?thesis by simp
  next
    case False
    then have absent: "map_of acts key = None" by (simp add: dict_contains_def)
    then have upd: "AList.update key a acts = acts @ [(key, a)]" by (rule update_absent)
    from absent have notin: "key \<notin> fst ` set acts" by (simp add: map_of_eq_None_iff)
    with Cons.prems(1) have d: "distinct (map fst (acts @ [(key, a)]))" by simp
    from Cons.prems(2) e have "\<not> distinct (map fst (acts @ [(key, a)]) @ map fst entries)"
      by simp
    from Cons.IH [OF d this] e False upd show ?thesis by simp
  qed
qed

text \<open>
  Claim C3. Whatever the automaton, if two of the assignments that \<^verbatim>\<open>actions\<close> makes have
  the same (state, lookahead) key, the construction raises the \<^verbatim>\<open>AssertionError\<close>
  "Conflict!"; if no two have, it returns exactly the assignments. The tables are built
  inside \<^verbatim>\<open>parse\<close>, after the first token is scanned and before the first action: when
  their construction raises, \<^verbatim>\<open>parse\<close> raises (the tokenization error of the first scan,
  or else the construction's error) for every source and offset, and returns no tree.
\<close>

theorem conflict_is_fatal:
  "((\<exists>p q. p < q \<and> q < length (action_entries syn R P item_sets gotos) \<and>
       fst (action_entries syn R P item_sets gotos ! p) =
       fst (action_entries syn R P item_sets gotos ! q)) \<longrightarrow>
      actions syn R P item_sets gotos = Inl AssertionError_conflict) \<and>
   (distinct (map fst (action_entries syn R P item_sets gotos)) \<longrightarrow>
      actions syn R P item_sets gotos = Inr (action_entries syn R P item_sets gotos)) \<and>
   (actions syn (rules syn) (prefixes syn)
        (fst (item_sets_and_gotos syn (rules syn) (prefixes syn) root_node))
        (snd (item_sets_and_gotos syn (rules syn) (prefixes syn) root_node)) = Inl e \<longrightarrow>
      parse syn root_node source offset =
        (case scan_token syn source offset of
           Inl e' \<Rightarrow> Some (Inl e')
         | Inr first \<Rightarrow> Some (Inl e)))"
proof (intro conjI impI)
  let ?E = "action_entries syn R P item_sets gotos"
  assume "\<exists>p q. p < q \<and> q < length ?E \<and> fst (?E ! p) = fst (?E ! q)"
  then obtain p q where pq: "p < q" "q < length ?E" "fst (?E ! p) = fst (?E ! q)" by blast
  have "\<not> distinct (map fst ?E)"
  proof
    assume d: "distinct (map fst ?E)"
    from pq have "p < length (map fst ?E)" "q < length (map fst ?E)" by simp_all
    with d have "(map fst ?E ! p = map fst ?E ! q) = (p = q)" by (rule nth_eq_iff_index_eq)
    with pq show False by simp
  qed
  then show "actions syn R P item_sets gotos = Inl AssertionError_conflict"
    using put_actions_conflict [of "[]" ?E] by (simp add: actions_def)
next
  assume "distinct (map fst (action_entries syn R P item_sets gotos))"
  then show "actions syn R P item_sets gotos = Inr (action_entries syn R P item_sets gotos)"
    using put_actions_distinct [of "[]" "action_entries syn R P item_sets gotos"]
    by (simp add: actions_def)
next
  assume "actions syn (rules syn) (prefixes syn)
        (fst (item_sets_and_gotos syn (rules syn) (prefixes syn) root_node))
        (snd (item_sets_and_gotos syn (rules syn) (prefixes syn) root_node)) = Inl e"
  then show "parse syn root_node source offset =
        (case scan_token syn source offset of
           Inl e' \<Rightarrow> Some (Inl e')
         | Inr first \<Rightarrow> Some (Inl e))"
    by (simp add: parse_def Let_def case_prod_beta split: sum.splits)
qed

theorem conflict_is_fatal_witness:
  "action_entries (from_rules [Rule (Some ''s'') [''a''], Rule (Some ''s'') [''t''],
                               Rule (Some ''t'') [''a'']] [])
     (rules (from_rules [Rule (Some ''s'') [''a''], Rule (Some ''s'') [''t''],
                         Rule (Some ''t'') [''a'']] []))
     (prefixes (from_rules [Rule (Some ''s'') [''a''], Rule (Some ''s'') [''t''],
                            Rule (Some ''t'') [''a'']] []))
     (fst (item_sets_and_gotos
        (from_rules [Rule (Some ''s'') [''a''], Rule (Some ''s'') [''t''],
                     Rule (Some ''t'') [''a'']] [])
        (rules (from_rules [Rule (Some ''s'') [''a''], Rule (Some ''s'') [''t''],
                            Rule (Some ''t'') [''a'']] []))
        (prefixes (from_rules [Rule (Some ''s'') [''a''], Rule (Some ''s'') [''t''],
                               Rule (Some ''t'') [''a'']] [])) ''s''))
     (snd (item_sets_and_gotos
        (from_rules [Rule (Some ''s'') [''a''], Rule (Some ''s'') [''t''],
                     Rule (Some ''t'') [''a'']] [])
        (rules (from_rules [Rule (Some ''s'') [''a''], Rule (Some ''s'') [''t''],
                            Rule (Some ''t'') [''a'']] []))
        (prefixes (from_rules [Rule (Some ''s'') [''a''], Rule (Some ''s'') [''t''],
                               Rule (Some ''t'') [''a'']] [])) ''s'')) =
     [((0, Some ''a''), Shift 1),
      ((1, None), Reduce (Rule (Some ''s'') [''a''])),
      ((1, None), Reduce (Rule (Some ''t'') [''a''])),
      ((2, None), Reduce (Rule (Some ''s'') [''t''])),
      ((3, None), Accept)] \<and>
   parse (from_rules [Rule (Some ''s'') [''a''], Rule (Some ''s'') [''t''],
                      Rule (Some ''t'') [''a'']] []) ''s'' ''a'' 0 =
     Some (Inl AssertionError_conflict)"
proof -
  define syn where "syn = from_rules [Rule (Some ''s'') [''a''], Rule (Some ''s'') [''t''],
                      Rule (Some ''t'') [''a'']] []"
  define IG where "IG = item_sets_and_gotos syn (rules syn) (prefixes syn) ''s''"
  define E where "E = action_entries syn (rules syn) (prefixes syn) (fst IG) (snd IG)"
  have E: "E = [((0, Some ''a''), Shift 1),
      ((1, None), Reduce (Rule (Some ''s'') [''a''])),
      ((1, None), Reduce (Rule (Some ''t'') [''a''])),
      ((2, None), Reduce (Rule (Some ''s'') [''t''])),
      ((3, None), Accept)]"
    unfolding E_def IG_def syn_def by code_simp
  have "(1::nat) < 2 \<and> 2 < length E \<and> fst (E ! 1) = fst (E ! 2)" by (simp add: E)
  then have ex: "\<exists>p q. p < q \<and> q < length E \<and> fst (E ! p) = fst (E ! q)" by blast
  note inst = conflict_is_fatal [where syn = syn and R = "rules syn" and P = "prefixes syn"
      and item_sets = "fst IG" and gotos = "snd IG" and root_node = "''s''"
      and e = AssertionError_conflict and source = "''a''" and offset = 0]
  from inst ex have conflict: "actions syn (rules syn) (prefixes syn) (fst IG) (snd IG) =
      Inl AssertionError_conflict"
    unfolding E_def by blast
  have scan: "scan_token syn ''a'' 0 = Inr (Some ''a'', (0, 1))" unfolding syn_def by code_simp
  from inst conflict have "parse syn ''s'' ''a'' 0 =
        (case scan_token syn ''a'' 0 of
           Inl e' \<Rightarrow> Some (Inl e')
         | Inr first \<Rightarrow> Some (Inl AssertionError_conflict))"
    unfolding IG_def by blast
  with scan have "parse syn ''s'' ''a'' 0 = Some (Inl AssertionError_conflict)" by simp
  with E show ?thesis unfolding E_def IG_def syn_def by simp
qed

section \<open>Prefixes\<close>

lemma pass_step_refl: "pass_step syn st st"
  by (simp add: pass_step_def)

lemma pass_step_trans: "pass_step syn a b \<Longrightarrow> pass_step syn b c \<Longrightarrow> pass_step syn a c"
  unfolding pass_step_def by (cases "fst b") auto

lemma pass_step_fold:
  "(\<And>x st. x \<in> set xs \<Longrightarrow> pass_step syn st (f x st)) \<Longrightarrow> pass_step syn st (fold f xs st)"
proof (induction xs arbitrary: st)
  case Nil
  then show ?case by (simp add: pass_step_refl)
next
  case (Cons x xs)
  have "pass_step syn st (f x st)" by (rule Cons.prems) simp
  moreover have "pass_step syn (f x st) (fold f xs (f x st))"
    by (rule Cons.IH) (simp add: Cons.prems)
  ultimately show ?case by (auto intro: pass_step_trans)
qed

lemma table_size_update:
  "distinct (map fst t) \<Longrightarrow> map_of t k = Some old \<Longrightarrow>
   table_size (AList.update k v t) + length old = table_size t + length v"
  by (induction t) (auto simp: table_size_def)

lemma update_keys_present:
  "map_of t k = Some old \<Longrightarrow> map fst (AList.update k v t) = map fst t"
  by (induction t) auto

lemma set_dict_fromkeys [simp]: "set (dict_fromkeys xs) = set xs"
proof -
  have "set (fold (\<lambda>x acc. if x \<in> set acc then acc else acc @ [x]) xs acc) = set acc \<union> set xs"
    for acc by (induction xs arbitrary: acc) auto
  then show ?thesis by (simp add: dict_fromkeys_def)
qed

lemma distinct_dict_fromkeys [simp]: "distinct (dict_fromkeys xs)"
proof -
  have "distinct acc \<Longrightarrow>
      distinct (fold (\<lambda>x acc. if x \<in> set acc then acc else acc @ [x]) xs acc)"
    for acc by (induction xs arbitrary: acc) auto
  then show ?thesis by (simp add: dict_fromkeys_def)
qed

lemma set_oset_add [simp]: "set (oset_add xs x) = insert x (set xs)"
  by (auto simp: oset_add_def)

lemma distinct_oset_add [simp]: "distinct (oset_add xs x) = distinct xs"
  by (auto simp: oset_add_def)

lemma set_oset_update [simp]: "set (oset_update xs ys) = set xs \<union> set ys"
proof -
  have "set (fold (\<lambda>v xs. oset_add xs v) ys acc) = set acc \<union> set ys" for acc
    by (induction ys arbitrary: acc) auto
  then show ?thesis by (simp add: oset_update_def)
qed

lemma distinct_oset_update [simp]: "distinct (oset_update xs ys) = distinct xs"
proof -
  have "distinct (fold (\<lambda>v xs. oset_add xs v) ys acc) = distinct acc" for acc
    by (induction ys arbitrary: acc) auto
  then show ?thesis by (simp add: oset_update_def)
qed

lemma nodes_are_symbols: "n \<in> set (nodes syn) \<Longrightarrow> n \<in> set (symbols syn)"
  by (simp add: symbols_def)

lemma tokens_are_symbols: "tok \<in> set (tokens syn) \<Longrightarrow> tok \<in> set (symbols syn)"
  by (simp add: tokens_def)

lemma tokens_not_nodes: "tok \<in> set (tokens syn) \<Longrightarrow> tok \<notin> set (nodes syn)"
  by (simp add: tokens_def)

lemma head_in_nodes: "r \<in> set (rule_list syn) \<Longrightarrow> head r \<in> set (nodes syn)"
  by (simp add: nodes_def)

lemma table_ok_iff:
  "table_ok syn t \<longleftrightarrow>
     distinct (map fst t) \<and> (\<forall>e \<in> set t. entry_ok syn e) \<and> set (nodes syn) \<subseteq> fst ` set t"
  by (auto simp: table_ok_def list_all_iff)

lemma table_ok_update:
  assumes ok: "table_ok syn t" and new: "entry_ok syn (k, v)"
  shows "table_ok syn (AList.update k v t)"
proof -
  have sub: "set (AList.update k v t) \<subseteq> set t \<union> {(k, v)}"
    by (induction t) auto
  have "\<forall>e \<in> set (AList.update k v t). entry_ok syn e"
  proof
    fix e assume "e \<in> set (AList.update k v t)"
    with sub have "e \<in> set t \<or> e = (k, v)" by blast
    with ok new show "entry_ok syn e" by (auto simp: table_ok_iff)
  qed
  moreover from ok have "distinct (map fst (AList.update k v t))"
    by (simp add: table_ok_iff distinct_update)
  moreover from ok have "set (nodes syn) \<subseteq> fst ` set (AList.update k v t)"
    by (auto simp: table_ok_iff dom_update)
  ultimately show ?thesis by (simp add: table_ok_iff)
qed

lemma table_ok_node:
  "table_ok syn t \<Longrightarrow> n \<in> set (nodes syn) \<Longrightarrow> \<exists>v. map_of t n = Some v"
proof -
  assume "table_ok syn t" "n \<in> set (nodes syn)"
  then have "n \<in> fst ` set t" by (auto simp: table_ok_iff)
  then have "map_of t n \<noteq> None" by (simp add: map_of_eq_None_iff)
  then show ?thesis by auto
qed

lemma table_ok_lookup:
  "table_ok syn t \<Longrightarrow> distinct (dict_get t k []) \<and>
     (\<forall>f \<in> set (dict_get t k []). f = None \<or> f \<in> set (tokens syn))"
proof (cases "map_of t k")
  case None
  then show ?thesis by (simp add: dict_get_def)
next
  case (Some v)
  assume ok: "table_ok syn t"
  from Some have "(k, v) \<in> set t" by (rule map_of_SomeD)
  with ok have "entry_ok syn (k, v)" by (simp add: table_ok_iff)
  with Some show ?thesis by (simp add: dict_get_def entry_ok_def list_all_iff)
qed

lemma add_prefix_step:
  assumes node: "node \<in> set (nodes syn)"
    and first: "first = None \<or> first \<in> set (tokens syn)"
  shows "pass_step syn st (add_prefix node first st)"
proof (cases "first \<in> set (dict_get (snd st) node [])")
  case True
  then have "add_prefix node first st = st" by (cases st) (simp add: add_prefix_def)
  then show ?thesis by (simp add: pass_step_refl)
next
  case False
  obtain d t where st: "st = (d, t)" by (cases st)
  let ?old = "dict_get t node []"
  let ?t' = "AList.update node (oset_add ?old first) t"
  from False st have res: "\<And>d'. add_prefix node first (d', t) = (False, ?t')"
    by (simp add: add_prefix_def)
  show ?thesis unfolding pass_step_def
  proof (intro impI)
    assume "table_ok syn (snd st)"
    with st have ok: "table_ok syn t" by simp
    from table_ok_node [OF ok node] obtain old where old: "map_of t node = Some old" by auto
    then have get: "?old = old" by (simp add: dict_get_def)
    from False st get have new: "oset_add ?old first = old @ [first]" "first \<notin> set old"
      by (simp_all add: oset_add_def)
    from table_ok_lookup [OF ok, of node] get first new
    have v: "distinct (old @ [first])"
      "\<forall>f \<in> set (old @ [first]). f = None \<or> f \<in> set (tokens syn)" by auto
    with node have "entry_ok syn (node, old @ [first])"
      by (simp add: entry_ok_def list_all_iff nodes_are_symbols)
    with ok have ok': "table_ok syn ?t'" unfolding new by (rule table_ok_update)
    from ok have "distinct (map fst t)" by (simp add: table_ok_iff)
    from table_size_update [OF this old, of "old @ [first]"]
    have size: "table_size ?t' = Suc (table_size t)" by (simp add: new)
    from old have keys: "map fst ?t' = map fst t" by (rule update_keys_present)
    from ok' size keys show "table_ok syn (snd (add_prefix node first st)) \<and>
        map fst (snd (add_prefix node first st)) = map fst (snd st) \<and>
        table_size (snd st) \<le> table_size (snd (add_prefix node first st)) \<and>
        (fst (add_prefix node first st) \<longrightarrow> add_prefix node first st = st) \<and>
        (fst st \<and> \<not> fst (add_prefix node first st) \<longrightarrow>
           table_size (snd st) < table_size (snd (add_prefix node first st)))"
      by (simp add: res st)
  qed
qed

lemma scan_body_step:
  assumes node: "node \<in> set (nodes syn)"
  shows "pass_step syn st (scan_body node bs st)"
proof (induction bs arbitrary: st)
  case Nil
  from node show ?case by (simp add: add_prefix_step)
next
  case (Cons b bs)
  let ?firsts = "exclude_nones (dict_get (snd st) (Some b) [])"
  let ?st' = "fold (add_prefix node) ?firsts st"
  have first: "pass_step syn st ?st'"
  proof (cases "table_ok syn (snd st)")
    case False
    then show ?thesis by (simp add: pass_step_def)
  next
    case True
    show ?thesis
    proof (rule pass_step_fold)
      fix x st0 assume "x \<in> set ?firsts"
      with table_ok_lookup [OF True, of "Some b"] have "x = None \<or> x \<in> set (tokens syn)"
        by (auto simp: exclude_nones_def)
      with node show "pass_step syn st0 (add_prefix node x st0)" by (rule add_prefix_step)
    qed
  qed
  show ?case
  proof (cases "None \<notin> set (dict_get (snd ?st') (Some b) [])")
    case True
    with first show ?thesis by (simp add: Let_def)
  next
    case False
    have "pass_step syn ?st' (scan_body node bs ?st')" by (rule Cons.IH)
    with first have "pass_step syn st (scan_body node bs ?st')" by (rule pass_step_trans)
    with False show ?thesis by (simp add: Let_def)
  qed
qed

lemma prefixes_pass_step: "pass_step syn (True, t) (prefixes_pass syn t)"
  unfolding prefixes_pass_def
  by (rule pass_step_fold) (simp add: scan_body_step head_in_nodes)

lemma length_le_of_subset:
  "distinct xs \<Longrightarrow> set xs \<subseteq> set ys \<Longrightarrow> length xs \<le> length ys"
proof -
  assume d: "distinct xs" and sub: "set xs \<subseteq> set ys"
  from d have "length xs = card (set xs)" by (simp add: distinct_card)
  also from sub have "\<dots> \<le> card (set ys)" by (simp add: card_mono)
  also have "\<dots> \<le> length ys" by (rule card_length)
  finally show ?thesis .
qed

lemma sum_list_bound:
  fixes f :: "'a \<Rightarrow> nat"
  shows "(\<And>x. x \<in> set xs \<Longrightarrow> f x \<le> c) \<Longrightarrow> sum_list (map f xs) \<le> length xs * c"
proof (induction xs)
  case Nil
  then show ?case by simp
next
  case (Cons x xs)
  have "f x \<le> c" by (rule Cons.prems) simp
  moreover have "sum_list (map f xs) \<le> length xs * c"
    by (rule Cons.IH) (simp add: Cons.prems)
  ultimately show ?case by simp
qed

lemma table_size_bound:
  assumes ok: "table_ok syn t"
  shows "table_size t \<le> length (symbols syn) * Suc (length (tokens syn))"
proof -
  have each: "length (snd e) \<le> Suc (length (tokens syn))" if "e \<in> set t" for e
  proof -
    from ok that have e: "entry_ok syn e" by (simp add: table_ok_iff)
    then have "set (snd e) \<subseteq> set (None # tokens syn)" by (auto simp: entry_ok_def list_all_iff)
    with e have "length (snd e) \<le> length (None # tokens syn)"
      by (intro length_le_of_subset) (simp_all add: entry_ok_def)
    then show ?thesis by simp
  qed
  have "sum_list (map (\<lambda>e. length (snd e)) t) \<le> length t * Suc (length (tokens syn))"
    using each by (rule sum_list_bound)
  moreover have "length t \<le> length (symbols syn)"
  proof -
    from ok have "distinct (map fst t)" "set (map fst t) \<subseteq> set (symbols syn)"
      by (auto simp: table_ok_iff entry_ok_def)
    then have "length (map fst t) \<le> length (symbols syn)" by (rule length_le_of_subset)
    then show ?thesis by simp
  qed
  moreover have "table_size t = sum_list (map (\<lambda>e. length (snd e)) t)"
    by (simp add: table_size_def)
  ultimately show ?thesis
    by (metis (no_types, lifting) le_trans mult_le_mono1)
qed

lemma prefixes_init_fold:
  "distinct (map fst d) \<Longrightarrow>
   map_of (fold (\<lambda>token d. AList.update token [token] d) toks d) k =
     (if k \<in> set toks then Some [k] else map_of d k)"
proof (induction toks arbitrary: d)
  case Nil
  then show ?case by simp
next
  case (Cons tok toks)
  from Cons.prems have "distinct (map fst (AList.update tok [tok] d))"
    by (simp add: distinct_update)
  from Cons.IH [OF this] show ?case by (auto simp: update_conv')
qed

lemma prefixes_init_token:
  "tok \<in> set (tokens syn) \<Longrightarrow> map_of (prefixes_init syn) tok = Some [tok]"
  by (simp add: prefixes_init_def prefixes_init_fold nodes_def comp_def)

lemma prefixes_init_node:
  assumes "n \<in> set (nodes syn)"
  shows "map_of (prefixes_init syn) n = Some []"
proof -
  from assms have "n \<notin> set (tokens syn)" by (auto dest: tokens_not_nodes)
  moreover from assms have "map_of (map (\<lambda>node. (node, [])) (nodes syn)) n = Some []"
    by (simp add: map_of_map_restrict)
  ultimately show ?thesis
    by (simp add: prefixes_init_def prefixes_init_fold nodes_def comp_def)
qed

lemma prefixes_init_ok: "table_ok syn (prefixes_init syn)"
proof -
  have "table_ok syn (fold (\<lambda>token d. AList.update token [token] d) toks d)"
    if "table_ok syn d" "set toks \<subseteq> set (tokens syn)" for toks d
    using that
  proof (induction toks arbitrary: d)
    case Nil
    then show ?case by simp
  next
    case (Cons tok toks)
    from Cons.prems have "entry_ok syn (tok, [tok])"
      by (simp add: entry_ok_def tokens_are_symbols)
    with Cons.prems(1) have "table_ok syn (AList.update tok [tok] d)" by (rule table_ok_update)
    with Cons.prems(2) show ?case by (simp add: Cons.IH)
  qed
  moreover have "table_ok syn (map (\<lambda>node. (node, [])) (nodes syn))"
  proof -
    have "map fst (map (\<lambda>node. (node, [])) (nodes syn)) = nodes syn"
      by (simp add: comp_def)
    moreover have "distinct (nodes syn)" by (simp add: nodes_def)
    moreover have "\<forall>e \<in> set (map (\<lambda>node. (node, [])) (nodes syn)). entry_ok syn e"
      by (auto simp: entry_ok_def nodes_are_symbols)
    ultimately show ?thesis
      unfolding table_ok_iff by (metis list.set_map subset_refl)
  qed
  ultimately show ?thesis by (simp add: prefixes_init_def)
qed

lemma prefixes_pass_decreases:
  assumes ok: "table_ok syn t"
  shows "table_ok syn (snd (prefixes_pass syn t)) \<and>
         (fst (prefixes_pass syn t) \<longrightarrow> prefixes_pass syn t = (True, t)) \<and>
         pass_measure syn (prefixes_pass syn t) < pass_measure syn (False, t)"
proof -
  let ?st = "prefixes_pass syn t"
  from prefixes_pass_step [of syn t] ok
  have ok': "table_ok syn (snd ?st)" and same: "fst ?st \<longrightarrow> ?st = (True, t)"
    and grow: "\<not> fst ?st \<longrightarrow> table_size t < table_size (snd ?st)"
    by (simp_all add: pass_step_def)
  from table_size_bound [OF ok'] grow same
  have "pass_measure syn ?st < pass_measure syn (False, t)"
    by (cases "fst ?st") (auto simp: pass_measure_def)
  with ok' same show ?thesis by simp
qed

lemma prefixes_terminates:
  "\<exists>st. while_option (\<lambda>(done, table). \<not> done) (\<lambda>(done, table). prefixes_pass syn table)
           (False, prefixes_init syn) = Some st"
proof (rule measure_while_option_Some [where P = "\<lambda>st. table_ok syn (snd st)"
      and f = "pass_measure syn"])
  fix st :: "bool \<times> prefix_table"
  assume "table_ok syn (snd st)" and "case st of (done, table) \<Rightarrow> \<not> done"
  then show "table_ok syn (snd (case st of (done, table) \<Rightarrow> prefixes_pass syn table)) \<and>
      pass_measure syn (case st of (done, table) \<Rightarrow> prefixes_pass syn table) < pass_measure syn st"
    using prefixes_pass_decreases [of syn "snd st"] by (cases st) auto
next
  show "table_ok syn (snd (False, prefixes_init syn))" by (simp add: prefixes_init_ok)
qed

lemma prefixes_fixpoint:
  assumes init: "I (prefixes_init syn)"
    and pres: "\<And>t. table_ok syn t \<Longrightarrow> I t \<Longrightarrow> I (snd (prefixes_pass syn t))"
  shows "I (prefixes syn) \<and> table_ok syn (prefixes syn) \<and>
         prefixes_pass syn (prefixes syn) = (True, prefixes syn)"
proof -
  let ?b = "\<lambda>(done, table). \<not> done"
  let ?c = "\<lambda>(done :: bool, table). prefixes_pass syn table"
  let ?P = "\<lambda>st. table_ok syn (snd st) \<and> I (snd st) \<and>
                 (fst st \<longrightarrow> prefixes_pass syn (snd st) = (True, snd st))"
  have "?P (while ?b ?c (False, prefixes_init syn)) \<and> \<not> ?b (while ?b ?c (False, prefixes_init syn))"
  proof (rule while_rule [where P = ?P and r = "measure (pass_measure syn)"])
    show "?P (False, prefixes_init syn)" by (simp add: prefixes_init_ok init)
  next
    fix st assume P: "?P st" and b: "?b st"
    obtain d t where st: "st = (d, t)" by (cases st)
    from P st have ok: "table_ok syn t" and I: "I t" by simp_all
    note dec = prefixes_pass_decreases [OF ok]
    from dec pres [OF ok I] st show "?P (?c st)" by auto
  next
    fix st assume "?P st" and "\<not> ?b st"
    then show "?P st \<and> \<not> ?b st" by simp
  next
    show "wf (measure (pass_measure syn))" by simp
  next
    fix st assume P: "?P st" and b: "?b st"
    obtain d t where st: "st = (d, t)" by (cases st)
    from P st have ok: "table_ok syn t" by simp
    from prefixes_pass_decreases [OF ok] b st
    show "(?c st, st) \<in> measure (pass_measure syn)" by simp
  qed
  then show ?thesis by (auto simp: prefixes_def case_prod_beta)
qed

lemma fold_fixed:
  assumes step: "\<And>x st. x \<in> set xs \<Longrightarrow> pass_step syn st (f x st)"
    and ok: "table_ok syn (snd st)" and flag: "fst (fold f xs st)" and x: "x \<in> set xs"
  shows "f x st = st"
  using step ok flag x
proof (induction xs arbitrary: st)
  case Nil
  then show ?case by simp
next
  case (Cons y ys)
  have first: "pass_step syn st (f y st)" by (rule Cons.prems(1)) simp
  with Cons.prems(2) have ok': "table_ok syn (snd (f y st))" by (simp add: pass_step_def)
  have "pass_step syn (f y st) (fold f ys (f y st))"
    by (rule pass_step_fold) (simp add: Cons.prems(1))
  with ok' Cons.prems(3) have "fold f ys (f y st) = f y st" by (simp add: pass_step_def)
  with Cons.prems(3) have "fst (f y st)" by simp
  with first Cons.prems(2) have same: "f y st = st" by (simp add: pass_step_def)
  show ?case
  proof (cases "x = y")
    case True
    with same show ?thesis by simp
  next
    case False
    with Cons.prems(4) have "x \<in> set ys" by simp
    moreover from Cons.prems(3) same have "fst (fold f ys st)" by simp
    ultimately show ?thesis using Cons.IH [of st] Cons.prems(1,2) by simp
  qed
qed

lemma fixpoint_rule:
  assumes fixed: "prefixes_pass syn t = (True, t)" and ok: "table_ok syn t"
    and r: "r \<in> set (rule_list syn)"
  shows "scan_body (head r) (body r) (True, t) = (True, t)"
proof (rule fold_fixed [where f = "\<lambda>r st. scan_body (head r) (body r) st"
      and xs = "rule_list syn" and syn = syn])
  fix x st assume "x \<in> set (rule_list syn)"
  then show "pass_step syn st (scan_body (head x) (body x) st)"
    by (simp add: scan_body_step head_in_nodes)
next
  from ok show "table_ok syn (snd (True, t))" by simp
next
  from fixed show "fst (fold (\<lambda>r st. scan_body (head r) (body r) st) (rule_list syn) (True, t))"
    by (simp add: prefixes_pass_def)
next
  from r show "r \<in> set (rule_list syn)" .
qed

lemma add_prefix_other:
  "node \<noteq> k \<Longrightarrow> map_of (snd (add_prefix node first st)) k = map_of (snd st) k"
  by (cases st) (simp add: add_prefix_def update_conv')

lemma fold_add_prefix_other:
  "node \<noteq> k \<Longrightarrow> map_of (snd (fold (add_prefix node) firsts st)) k = map_of (snd st) k"
  by (induction firsts arbitrary: st) (simp_all add: add_prefix_other)

lemma scan_body_other:
  "node \<noteq> k \<Longrightarrow> map_of (snd (scan_body node bs st)) k = map_of (snd st) k"
proof (induction bs arbitrary: st)
  case Nil
  then show ?case by (simp add: add_prefix_other)
next
  case (Cons b bs)
  then show ?case by (simp add: Let_def fold_add_prefix_other)
qed

lemma scan_body_terminal_only:
  assumes inv: "terminal_only h t (snd st)" and ne: "h \<noteq> Some t"
  shows "terminal_only h t (snd (scan_body h [t] st))"
proof -
  obtain d table where st: "st = (d, table)" by (cases st)
  from inv st have tok: "dict_get table (Some t) [] = [Some t]"
    by (simp add: terminal_only_def dict_get_def)
  let ?st' = "add_prefix h (Some t) st"
  from ne have same: "map_of (snd ?st') (Some t) = map_of (snd st) (Some t)"
    by (rule add_prefix_other)
  with inv have "dict_get (snd ?st') (Some t) [] = [Some t]"
    by (simp add: terminal_only_def dict_get_def)
  with tok st have res: "scan_body h [t] st = ?st'"
    by (simp add: exclude_nones_def Let_def)
  from inv st have "map_of (snd ?st') h = Some [] \<or> map_of (snd ?st') h = Some [Some t]"
    by (auto simp: terminal_only_def add_prefix_def dict_get_def oset_add_def update_conv')
  with same inv res show ?thesis by (simp add: terminal_only_def)
qed

lemma prefixes_pass_terminal_only:
  assumes only: "\<forall>r \<in> set (rule_list syn). head r = h \<longrightarrow> body r = [t]"
    and terminal: "Some t \<notin> set (nodes syn)"
    and inv: "terminal_only h t table"
  shows "terminal_only h t (snd (prefixes_pass syn table))"
proof -
  have "terminal_only h t (snd (fold (\<lambda>r st. scan_body (head r) (body r) st) rs st))"
    if "set rs \<subseteq> set (rule_list syn)" "terminal_only h t (snd st)" for rs st
    using that
  proof (induction rs arbitrary: st)
    case Nil
    then show ?case by simp
  next
    case (Cons r rs)
    from Cons.prems(1) have r: "r \<in> set (rule_list syn)" by simp
    then have "head r \<in> set (nodes syn)" by (rule head_in_nodes)
    with terminal have ne: "head r \<noteq> Some t" by auto
    have "terminal_only h t (snd (scan_body (head r) (body r) st))"
    proof (cases "head r = h")
      case True
      with only r have b: "body r = [t]" by simp
      from True ne have "h \<noteq> Some t" by simp
      from scan_body_terminal_only [OF Cons.prems(2) this] True b show ?thesis
        by (simp del: scan_body.simps)
    next
      case False
      with ne Cons.prems(2) show ?thesis by (simp add: terminal_only_def scan_body_other)
    qed
    with Cons.prems(1) show ?case by (simp add: Cons.IH)
  qed
  from this [of "rule_list syn" "(True, table)"] inv show ?thesis
    by (simp add: prefixes_pass_def)
qed

text \<open>
  Claim C8. The fixpoint loop of \<^verbatim>\<open>prefixes\<close> stops for every grammar
  (\<open>prefixes_terminates\<close>), and in the table it returns: the set of a head that has a rule
  with the empty body holds the null marker; and the set of a head whose only rule has
  a body of one terminal is exactly that terminal.
\<close>

theorem prefixes_nullable_and_terminal:
  "(Rule a [] \<in> set (rule_list syn) \<longrightarrow>
      (\<exists>ps. map_of (prefixes syn) a = Some ps \<and> None \<in> set ps)) \<and>
   (Rule h [t] \<in> set (rule_list syn) \<and>
    list_all (\<lambda>r. head r = h \<longrightarrow> r = Rule h [t]) (rule_list syn) \<and>
    Some t \<notin> set (nodes syn) \<longrightarrow>
      map_of (prefixes syn) h = Some [Some t])"
proof (intro conjI impI)
  assume r: "Rule a [] \<in> set (rule_list syn)"
  from prefixes_fixpoint [of "\<lambda>t. True" syn]
  have ok: "table_ok syn (prefixes syn)"
    and fixed: "prefixes_pass syn (prefixes syn) = (True, prefixes syn)" by simp_all
  from fixpoint_rule [OF fixed ok r]
  have "add_prefix a None (True, prefixes syn) = (True, prefixes syn)" by simp
  then have none: "None \<in> set (dict_get (prefixes syn) a [])"
    by (auto simp: add_prefix_def split: if_splits)
  from r have "a \<in> set (nodes syn)" using head_in_nodes [of "Rule a []" syn] by simp
  from table_ok_node [OF ok this] obtain ps where "map_of (prefixes syn) a = Some ps" by auto
  with none show "\<exists>ps. map_of (prefixes syn) a = Some ps \<and> None \<in> set ps"
    by (simp add: dict_get_def)
next
  assume a: "Rule h [t] \<in> set (rule_list syn) \<and>
    list_all (\<lambda>r. head r = h \<longrightarrow> r = Rule h [t]) (rule_list syn) \<and>
    Some t \<notin> set (nodes syn)"
  then have r: "Rule h [t] \<in> set (rule_list syn)" and terminal: "Some t \<notin> set (nodes syn)"
    and all: "\<forall>r \<in> set (rule_list syn). head r = h \<longrightarrow> r = Rule h [t]"
    by (simp_all add: list_all_iff)
  have only: "\<forall>r \<in> set (rule_list syn). head r = h \<longrightarrow> body r = [t]"
  proof (intro ballI impI)
    fix r' assume "r' \<in> set (rule_list syn)" "head r' = h"
    with all have "r' = Rule h [t]" by blast
    then show "body r' = [t]" by simp
  qed
  from r have h: "h \<in> set (nodes syn)" using head_in_nodes [of "Rule h [t]" syn] by simp
  with terminal have ne: "h \<noteq> Some t" by auto
  from r have "Some t \<in> set (symbols syn)" by (force simp: symbols_def)
  with terminal have "Some t \<in> set (tokens syn)" by (simp add: tokens_def)
  with h have init: "terminal_only h t (prefixes_init syn)"
    by (simp add: terminal_only_def prefixes_init_token prefixes_init_node)
  from prefixes_fixpoint [of "terminal_only h t" syn, OF init]
    prefixes_pass_terminal_only [OF only terminal]
  have inv: "terminal_only h t (prefixes syn)" and ok: "table_ok syn (prefixes syn)"
    and fixed: "prefixes_pass syn (prefixes syn) = (True, prefixes syn)" by blast+
  from fixpoint_rule [OF fixed ok r]
  have same: "scan_body h [t] (True, prefixes syn) = (True, prefixes syn)" by simp
  from inv have tok: "dict_get (prefixes syn) (Some t) [] = [Some t]"
    by (simp add: terminal_only_def dict_get_def)
  let ?st' = "add_prefix h (Some t) (True, prefixes syn)"
  from ne have "map_of (snd ?st') (Some t) = map_of (prefixes syn) (Some t)"
    using add_prefix_other [of h "Some t" "Some t" "(True, prefixes syn)"] by simp
  with inv have "dict_get (snd ?st') (Some t) [] = [Some t]"
    by (simp add: terminal_only_def dict_get_def)
  with tok same have "?st' = (True, prefixes syn)"
    by (simp add: exclude_nones_def Let_def)
  then have "Some t \<in> set (dict_get (prefixes syn) h [])"
    by (auto simp: add_prefix_def split: if_splits)
  with inv show "map_of (prefixes syn) h = Some [Some t]"
    by (auto simp: terminal_only_def dict_get_def)
qed

theorem prefixes_nullable_and_terminal_witness:
  "map_of (prefixes (from_rules [Rule (Some ''A'') [], Rule (Some ''A'') [''x'', ''B''],
                                 Rule (Some ''B'') [''y'']] [])) (Some ''A'') =
     Some [None, Some ''x''] \<and>
   map_of (prefixes (from_rules [Rule (Some ''A'') [], Rule (Some ''A'') [''x'', ''B''],
                                 Rule (Some ''B'') [''y'']] [])) (Some ''B'') =
     Some [Some ''y'']"
proof -
  define syn where "syn = from_rules [Rule (Some ''A'') [], Rule (Some ''A'') [''x'', ''B''],
                                 Rule (Some ''B'') [''y'']] []"
  have rl: "rule_list syn = [Rule (Some ''A'') [], Rule (Some ''A'') [''x'', ''B''],
                                 Rule (Some ''B'') [''y'']]"
    by (simp add: syn_def from_rules_def Let_def)
  have nodes: "nodes syn = [Some ''A'', Some ''B'']"
    by (simp add: nodes_def rl dict_fromkeys_def)
  have computed: "map_of (prefixes syn) (Some ''A'') = Some [None, Some ''x'']"
    unfolding syn_def by code_simp
  have "Rule (Some ''A'') [] \<in> set (rule_list syn)" by (simp add: rl)
  with prefixes_nullable_and_terminal [of "Some ''A''" syn]
  have "\<exists>ps. map_of (prefixes syn) (Some ''A'') = Some ps \<and> None \<in> set ps" by blast
  moreover have "Rule (Some ''B'') [''y''] \<in> set (rule_list syn) \<and>
    list_all (\<lambda>r. head r = Some ''B'' \<longrightarrow> r = Rule (Some ''B'') [''y'']) (rule_list syn) \<and>
    Some ''y'' \<notin> set (nodes syn)" by (simp add: rl nodes)
  with prefixes_nullable_and_terminal [of _ syn "Some ''B''" "''y''"]
  have "map_of (prefixes syn) (Some ''B'') = Some [Some ''y'']" by blast
  ultimately show ?thesis using computed unfolding syn_def by simp
qed

section \<open>Termination of the table construction\<close>

text \<open>The loops of \<^verbatim>\<open>lr1_closure\<close> and \<^verbatim>\<open>item_sets_and_gotos\<close> walk a set that grows
  while it is walked. Both stop for every grammar: the sets stay inside a finite universe
  of items (\<open>lr1_closure_terminates\<close>, \<open>item_sets_terminates\<close>).\<close>

lemma set_oset_remove: "set (oset_remove xs x) \<subseteq> set xs"
proof (cases xs rule: rev_cases)
  case Nil
  then show ?thesis by (simp add: oset_remove_def)
next
  case (snoc ys y)
  have "set (ys[i := y]) \<subseteq> insert y (set ys)" for i by (rule set_update_subset_insert)
  with snoc show ?thesis by (auto simp: oset_remove_def Let_def)
qed

lemma dict_get_in_values:
  "x \<in> set (dict_get d k []) \<Longrightarrow> x \<in> set (concat (map snd d))"
proof (cases "map_of d k")
  case None
  assume "x \<in> set (dict_get d k [])"
  with None show ?thesis by (simp add: dict_get_def)
next
  case (Some v)
  assume "x \<in> set (dict_get d k [])"
  with Some have "x \<in> set v" by (simp add: dict_get_def)
  moreover from Some have "(k, v) \<in> set d" by (rule map_of_SomeD)
  ultimately show ?thesis by force
qed

lemma get_sequence_prefixes_subset:
  "set pre \<subseteq> set (followers_universe P) \<Longrightarrow>
   set (get_sequence_prefixes P sequence pre) \<subseteq> set (followers_universe P)"
proof (induction sequence arbitrary: pre)
  case Nil
  then show ?case by simp
next
  case (Cons s sequence)
  have "set (oset_update (oset_remove pre None) (dict_get P s [])) \<subseteq> set (followers_universe P)"
    using Cons.prems set_oset_remove [of pre None]
    by (auto simp: followers_universe_def dest: dict_get_in_values)
  from Cons.IH [OF this] Cons.prems show ?case by simp
qed

lemma in_closure_universe:
  "x \<in> set (closure_universe R P core_items) \<longleftrightarrow>
     x \<in> set core_items \<or>
     (dot x = 0 \<and> rule x \<in> set (concat (map snd R)) \<and>
      follower x \<in> set (followers_universe P))"
  by (cases x) (auto simp: closure_universe_def)

lemma in_items_of:
  "x \<in> set (concat (map (\<lambda>r. concat (map (\<lambda>d. map (\<lambda>f. LR1Item d r f) fs)
                                            [0..<Suc (length (body r))])) rs)) \<longleftrightarrow>
     rule x \<in> set rs \<and> dot x \<le> length (body (rule x)) \<and> follower x \<in> set fs"
proof (cases x)
  case (LR1Item d r f)
  have "LR1Item d r f \<in> set (concat (map (\<lambda>d. map (\<lambda>f. LR1Item d r' f) fs)
            [0..<Suc (length (body r'))])) \<longleftrightarrow>
        r = r' \<and> d \<le> length (body r) \<and> f \<in> set fs" for r'
    by (auto simp: less_Suc_eq_le simp del: upt_Suc)
  then show ?thesis unfolding LR1Item by (induction rs) (auto simp del: upt_Suc)
qed

lemma in_item_universe:
  "x \<in> set (item_universe R P root_node) \<longleftrightarrow>
     (rule x = Rule None [root_node] \<or> rule x \<in> set (concat (map snd R))) \<and>
     dot x \<le> length (body (rule x)) \<and> follower x \<in> set (followers_universe P)"
  unfolding item_universe_def in_items_of by auto

lemma closure_step_inv:
  assumes "distinct item_set" and "set item_set \<subseteq> set (closure_universe R P core_items)"
  shows "distinct (closure_step R P item item_set) \<and>
         set (closure_step R P item item_set) \<subseteq> set (closure_universe R P core_items) \<and>
         length item_set \<le> length (closure_step R P item item_set)"
proof -
  let ?U = "set (closure_universe R P core_items)"
  let ?fs = "get_sequence_prefixes P (map Some (tail item) @ [follower item]) [None]"
  have fs: "set ?fs \<subseteq> set (followers_universe P)"
    by (rule get_sequence_prefixes_subset) (simp add: followers_universe_def)
  have inner: "distinct (fold (\<lambda>f item_set. oset_add item_set (LR1Item 0 r f)) fs acc) \<and>
      set (fold (\<lambda>f item_set. oset_add item_set (LR1Item 0 r f)) fs acc) \<subseteq> ?U \<and>
      length acc \<le> length (fold (\<lambda>f item_set. oset_add item_set (LR1Item 0 r f)) fs acc)"
    if "distinct acc" "set acc \<subseteq> ?U" "set fs \<subseteq> set (followers_universe P)"
      "r \<in> set (concat (map snd R))" for fs acc r
    using that
  proof (induction fs arbitrary: acc)
    case Nil
    then show ?case by simp
  next
    case (Cons f fs)
    from Cons.prems have "LR1Item 0 r f \<in> ?U" by (simp add: in_closure_universe)
    with Cons.prems have "distinct (oset_add acc (LR1Item 0 r f))"
      "set (oset_add acc (LR1Item 0 r f)) \<subseteq> ?U" by simp_all
    from Cons.IH [OF this] Cons.prems(3,4)
    show ?case by (auto simp: oset_add_def split: if_splits)
  qed
  have outer: "distinct (fold (\<lambda>r item_set. fold (\<lambda>f item_set. oset_add item_set (LR1Item 0 r f)) ?fs item_set) rs acc) \<and>
      set (fold (\<lambda>r item_set. fold (\<lambda>f item_set. oset_add item_set (LR1Item 0 r f)) ?fs item_set) rs acc) \<subseteq> ?U \<and>
      length acc \<le> length (fold (\<lambda>r item_set. fold (\<lambda>f item_set. oset_add item_set (LR1Item 0 r f)) ?fs item_set) rs acc)"
    if "distinct acc" "set acc \<subseteq> ?U" "set rs \<subseteq> set (concat (map snd R))" for rs acc
    using that
  proof (induction rs arbitrary: acc)
    case Nil
    then show ?case by simp
  next
    case (Cons r rs)
    from Cons.prems have r: "r \<in> set (concat (map snd R))" by simp
    note step = inner [OF Cons.prems(1,2) fs r]
    from step have "distinct (fold (\<lambda>f item_set. oset_add item_set (LR1Item 0 r f)) ?fs acc)"
      "set (fold (\<lambda>f item_set. oset_add item_set (LR1Item 0 r f)) ?fs acc) \<subseteq> ?U" by simp_all
    from Cons.IH [OF this] Cons.prems(3) step show ?case by auto
  qed
  have "set (dict_get R (item_next item) []) \<subseteq> set (concat (map snd R))"
    by (auto dest: dict_get_in_values)
  from outer [OF assms this] show ?thesis by (simp add: closure_step_def Let_def)
qed

lemma length_le_universe:
  "distinct xs \<Longrightarrow> set xs \<subseteq> set ys \<Longrightarrow> length xs \<le> length ys"
proof -
  assume d: "distinct xs" and sub: "set xs \<subseteq> set ys"
  from d have "length xs = card (set xs)" by (simp add: distinct_card)
  also from sub have "\<dots> \<le> card (set ys)" by (simp add: card_mono)
  also have "\<dots> \<le> length ys" by (rule card_length)
  finally show ?thesis .
qed

lemma closure_loop_step:
  assumes inv: "closure_inv R P core_items st" and guard: "fst st < length (snd st)"
  shows "closure_inv R P core_items (Suc (fst st), closure_step R P (snd st ! fst st) (snd st)) \<and>
         length (closure_universe R P core_items) - Suc (fst st)
           < length (closure_universe R P core_items) - fst st"
proof -
  from inv have d: "distinct (snd st)"
    and sub: "set (snd st) \<subseteq> set (closure_universe R P core_items)"
    by (simp_all add: closure_inv_def)
  note step = closure_step_inv [OF d sub, of "snd st ! fst st"]
  from d sub have "length (snd st) \<le> length (closure_universe R P core_items)"
    by (rule length_le_universe)
  with guard step show ?thesis by (auto simp: closure_inv_def)
qed

lemma lr1_closure_terminates:
  "\<exists>st. while_option (\<lambda>(i, item_set). i < length item_set)
           (\<lambda>(i, item_set). (Suc i, closure_step R P (item_set ! i) item_set))
           (0, dict_fromkeys core_items) = Some st"
proof (rule measure_while_option_Some [where P = "closure_inv R P core_items"
      and f = "\<lambda>st. length (closure_universe R P core_items) - fst st"])
  fix st :: "nat \<times> lr1_item list"
  assume "closure_inv R P core_items st" and "case st of (i, item_set) \<Rightarrow> i < length item_set"
  then show "closure_inv R P core_items
        (case st of (i, item_set) \<Rightarrow> (Suc i, closure_step R P (item_set ! i) item_set)) \<and>
      length (closure_universe R P core_items) -
        fst (case st of (i, item_set) \<Rightarrow> (Suc i, closure_step R P (item_set ! i) item_set))
        < length (closure_universe R P core_items) - fst st"
    using closure_loop_step [of R P core_items st] by (cases st) simp
next
  show "closure_inv R P core_items (0, dict_fromkeys core_items)"
    by (auto simp: closure_inv_def closure_universe_def)
qed

lemma lr1_closure_inv:
  "distinct (lr1_closure R P core_items) \<and>
   set (lr1_closure R P core_items) \<subseteq> set (closure_universe R P core_items)"
proof -
  let ?b = "\<lambda>(i, item_set :: lr1_item list). i < length item_set"
  let ?c = "\<lambda>(i, item_set). (Suc i, closure_step R P (item_set ! i) item_set)"
  from lr1_closure_terminates [of R P core_items]
  obtain st where st: "while_option ?b ?c (0, dict_fromkeys core_items) = Some st" by blast
  have "closure_inv R P core_items st"
  proof (rule while_option_rule [where P = "closure_inv R P core_items", OF _ st])
    fix s assume "closure_inv R P core_items s" and "?b s"
    then show "closure_inv R P core_items (?c s)"
      using closure_loop_step [of R P core_items s] by (cases s) simp
  next
    show "closure_inv R P core_items (0, dict_fromkeys core_items)"
      by (auto simp: closure_inv_def closure_universe_def)
  qed
  moreover from st have "lr1_closure R P core_items = snd st"
    by (simp add: lr1_closure_def while_def)
  ultimately show ?thesis by (simp add: closure_inv_def)
qed

lemma position_less: "x \<in> set xs \<Longrightarrow> P x \<Longrightarrow> position P xs < length xs"
  by (induction xs) auto

lemma oset_eq_sets:
  assumes "distinct xs" and "distinct ys" and "set xs = set ys"
  shows "oset_eq xs ys"
proof -
  from assms have "length xs = card (set ys)" by (simp add: distinct_card [symmetric])
  also from assms(2) have "\<dots> = length ys" by (rule distinct_card)
  finally show ?thesis using assms(3) by (simp add: oset_eq_def list_all_iff)
qed

lemma item_sets_inv_iff:
  "item_sets_inv R P root_node item_sets \<longleftrightarrow>
     (\<forall>s \<in> set item_sets. distinct s \<and> set s \<subseteq> set (item_universe R P root_node)) \<and>
     distinct (map set item_sets)"
  by (simp add: item_sets_inv_def list_all_iff)

lemma oset_push_inv:
  assumes inv: "item_sets_inv R P root_node item_sets"
    and d: "distinct element" and sub: "set element \<subseteq> set (item_universe R P root_node)"
  shows "item_sets_inv R P root_node (snd (oset_push item_sets element)) \<and>
         length item_sets \<le> length (snd (oset_push item_sets element))"
proof (cases "position (\<lambda>xs. oset_eq xs element) item_sets = length item_sets")
  case False
  with inv show ?thesis by (simp add: oset_push_def Let_def)
next
  case True
  have "set element \<notin> set (map set item_sets)"
  proof
    assume "set element \<in> set (map set item_sets)"
    then obtain xs where xs: "xs \<in> set item_sets" "set xs = set element" by auto
    with inv have "distinct xs" by (simp add: item_sets_inv_iff)
    with d xs have "oset_eq xs element" by (simp add: oset_eq_sets)
    with xs have "position (\<lambda>xs. oset_eq xs element) item_sets < length item_sets"
      by (intro position_less)
    with True show False by simp
  qed
  with inv d sub True show ?thesis
    by (auto simp: oset_push_def Let_def item_sets_inv_iff)
qed

lemma goto_step_inv:
  assumes inv: "item_sets_inv R P root_node (fst st)"
    and d: "distinct item_set" and sub: "set item_set \<subseteq> set (item_universe R P root_node)"
  shows "item_sets_inv R P root_node (fst (goto_step i item_set next_symbol st)) \<and>
         length (fst st) \<le> length (fst (goto_step i item_set next_symbol st))"
proof -
  obtain item_sets gotos where st: "st = (item_sets, gotos)" by (cases st)
  let ?next = "dict_fromkeys
            (map (\<lambda>item. LR1Item (dot item + 1) (rule item) (follower item))
               (filter (\<lambda>item. dot item < length (body (rule item)) \<and>
                                Some (body (rule item) ! dot item) = next_symbol) item_set))"
  have next_sub: "set ?next \<subseteq> set (item_universe R P root_node)"
  proof
    fix x assume "x \<in> set ?next"
    then obtain item where item: "item \<in> set item_set" "dot item < length (body (rule item))"
      and x: "x = LR1Item (dot item + 1) (rule item) (follower item)" by auto
    from item(1) sub have "item \<in> set (item_universe R P root_node)" by blast
    with item(2) x show "x \<in> set (item_universe R P root_node)"
      by (simp add: in_item_universe)
  qed
  from inv st have inv': "item_sets_inv R P root_node item_sets" by simp
  from oset_push_inv [OF inv' _ next_sub] st inv' show ?thesis
    by (simp add: goto_step_def Let_def case_prod_beta)
qed

lemma goto_fold_inv:
  assumes d: "distinct item_set" and sub: "set item_set \<subseteq> set (item_universe R P root_node)"
  shows "item_sets_inv R P root_node (fst st) \<Longrightarrow>
         item_sets_inv R P root_node (fst (fold (goto_step i item_set) syms st)) \<and>
         length (fst st) \<le> length (fst (fold (goto_step i item_set) syms st))"
proof (induction syms arbitrary: st)
  case Nil
  then show ?case by simp
next
  case (Cons sym syms)
  note step = goto_step_inv [OF Cons.prems d sub, of i sym]
  from step have "item_sets_inv R P root_node (fst (goto_step i item_set sym st))" by simp
  from Cons.IH [OF this] step show ?case by auto
qed

lemma closure_in_item_universe:
  assumes "set core_items \<subseteq> set (item_universe R P root_node)"
  shows "set (lr1_closure R P core_items) \<subseteq> set (item_universe R P root_node)"
proof
  fix x assume "x \<in> set (lr1_closure R P core_items)"
  with lr1_closure_inv [of R P core_items] have "x \<in> set (closure_universe R P core_items)"
    by blast
  with assms show "x \<in> set (item_universe R P root_node)"
    by (auto simp: in_closure_universe in_item_universe)
qed

lemma item_sets_length_bound:
  assumes "item_sets_inv R P root_node item_sets"
  shows "length item_sets \<le> 2 ^ length (item_universe R P root_node)"
proof -
  let ?U = "set (item_universe R P root_node)"
  from assms have "length item_sets = card (set (map set item_sets))"
    by (metis distinct_card item_sets_inv_iff length_map)
  also from assms have "\<dots> \<le> card (Pow ?U)"
    by (intro card_mono) (auto simp: item_sets_inv_iff)
  also have "\<dots> = 2 ^ card ?U" by (simp add: card_Pow)
  also have "\<dots> \<le> 2 ^ length (item_universe R P root_node)"
    by (simp add: card_length)
  finally show ?thesis .
qed

lemma automaton_loop_step:
  assumes inv: "automaton_inv R P root_node st" and guard: "fst st < length (fst (snd st))"
  shows "automaton_inv R P root_node
           (Suc (fst st),
            fold (goto_step (fst st) (lr1_closure R P (fst (snd st) ! fst st))) syms (snd st)) \<and>
         2 ^ length (item_universe R P root_node) - Suc (fst st)
           < 2 ^ length (item_universe R P root_node) - fst st"
proof -
  let ?sets = "fst (snd st)"
  let ?core = "?sets ! fst st"
  from inv have sets: "item_sets_inv R P root_node ?sets" by (simp add: automaton_inv_def)
  from guard have "?core \<in> set ?sets" by simp
  with sets have "set ?core \<subseteq> set (item_universe R P root_node)"
    by (simp add: item_sets_inv_iff)
  then have sub: "set (lr1_closure R P ?core) \<subseteq> set (item_universe R P root_node)"
    by (rule closure_in_item_universe)
  have d: "distinct (lr1_closure R P ?core)" using lr1_closure_inv [of R P ?core] by simp
  note fold = goto_fold_inv [OF d sub sets, of "fst st" syms]
  from sets have "length ?sets \<le> 2 ^ length (item_universe R P root_node)"
    by (rule item_sets_length_bound)
  with guard fold show ?thesis by (auto simp: automaton_inv_def)
qed

lemma item_sets_terminates:
  "\<exists>st. while_option (\<lambda>(i, item_sets, gotos). i < length item_sets)
           (\<lambda>(i, item_sets, gotos).
              (Suc i, fold (goto_step i (lr1_closure R P (item_sets ! i))) (symbols syn)
                        (item_sets, gotos)))
           (0, [[LR1Item 0 (Rule None [root_node]) None]], []) = Some st"
proof (rule measure_while_option_Some [where P = "automaton_inv R P root_node"
      and f = "\<lambda>st. 2 ^ length (item_universe R P root_node) - fst st"])
  fix st :: "nat \<times> lr1_item list list \<times> gotos"
  assume "automaton_inv R P root_node st"
    and "case st of (i, item_sets, gotos) \<Rightarrow> i < length item_sets"
  then show "automaton_inv R P root_node
        (case st of (i, item_sets, gotos) \<Rightarrow>
           (Suc i, fold (goto_step i (lr1_closure R P (item_sets ! i))) (symbols syn)
                     (item_sets, gotos))) \<and>
      2 ^ length (item_universe R P root_node) -
        fst (case st of (i, item_sets, gotos) \<Rightarrow>
           (Suc i, fold (goto_step i (lr1_closure R P (item_sets ! i))) (symbols syn)
                     (item_sets, gotos)))
        < 2 ^ length (item_universe R P root_node) - fst st"
    using automaton_loop_step [of R P root_node st "symbols syn"]
    by (cases st) (simp add: case_prod_beta)
next
  show "automaton_inv R P root_node (0, [[LR1Item 0 (Rule None [root_node]) None]], [])"
    by (simp add: automaton_inv_def item_sets_inv_iff in_item_universe followers_universe_def)
qed

section \<open>The sequential sets as ordered sets\<close>

text \<open>
  On a set that satisfies the representation invariant the methods behave as operations on the
  list of values: the constructors establish the invariant, \<^verbatim>\<open>add\<close>, \<^verbatim>\<open>update\<close> and
  \<^verbatim>\<open>push\<close> append what is absent, \<^verbatim>\<open>remove\<close> takes an element out and keeps the order
  of the others, and deleting a position inside the range keeps the invariant too.
\<close>

lemma wf_set_iff:
  "wf_set s \<longleftrightarrow>
     distinct (vals s) \<and> distinct (map fst (indexes s)) \<and>
     (\<forall>v i. map_of (indexes s) v = Some i \<longleftrightarrow>
            (\<exists>k < length (vals s). i = int k \<and> vals s ! k = v))"
proof
  assume "wf_set s"
  then show "distinct (vals s) \<and> distinct (map fst (indexes s)) \<and>
     (\<forall>v i. map_of (indexes s) v = Some i \<longleftrightarrow>
            (\<exists>k < length (vals s). i = int k \<and> vals s ! k = v))"
    by (simp add: wf_set_lookup) (simp add: wf_set_def)
next
  assume a: "distinct (vals s) \<and> distinct (map fst (indexes s)) \<and>
     (\<forall>v i. map_of (indexes s) v = Some i \<longleftrightarrow>
            (\<exists>k < length (vals s). i = int k \<and> vals s ! k = v))"
  have "set (indexes s) = set (zip (vals s) (map int [0..<length (vals s)]))"
  proof (rule set_eqI)
    fix p :: "'a \<times> int"
    obtain v i where p: "p = (v, i)" by (cases p)
    from a have "distinct (map fst (indexes s))" by simp
    then have "(v, i) \<in> set (indexes s) \<longleftrightarrow> map_of (indexes s) v = Some i" by simp
    also from a have "\<dots> \<longleftrightarrow> (\<exists>k < length (vals s). i = int k \<and> vals s ! k = v)" by blast
    also have "\<dots> \<longleftrightarrow> (v, i) \<in> set (zip (vals s) (map int [0..<length (vals s)]))"
      by (auto simp: set_zip)
    finally show "p \<in> set (indexes s) \<longleftrightarrow> p \<in> set (zip (vals s) (map int [0..<length (vals s)]))"
      by (simp add: p)
  qed
  with a show "wf_set s" by (simp add: wf_set_def)
qed

lemma contains_iff: "wf_set s \<Longrightarrow> contains s x \<longleftrightarrow> x \<in> set (vals s)"
proof -
  assume wf: "wf_set s"
  show ?thesis
  proof (cases "x \<in> set (vals s)")
    case True
    then obtain p where "p < length (vals s)" "vals s ! p = x" by (auto simp: in_set_conv_nth)
    with wf True show ?thesis using wf_set_present [of s p]
      by (simp add: contains_def dict_contains_def)
  next
    case False
    with wf show ?thesis by (simp add: contains_def dict_contains_def wf_set_absent)
  qed
qed

lemma enumerate_fold:
  "distinct (map snd ps) \<Longrightarrow> snd ` set ps \<inter> fst ` set d = {} \<Longrightarrow>
   fold (\<lambda>(i, v) d. AList.update v i d) ps d = d @ map (\<lambda>(i, v). (v, i)) ps"
proof (induction ps arbitrary: d)
  case Nil
  then show ?case by simp
next
  case (Cons p ps)
  obtain i v where p: "p = (i, v)" by (cases p)
  from Cons.prems p have "map_of d v = None" by (auto simp: map_of_eq_None_iff)
  then have upd: "AList.update v i d = d @ [(v, i)]" by (rule update_absent)
  from Cons.prems p have "distinct (map snd ps)" "snd ` set ps \<inter> fst ` set (d @ [(v, i)]) = {}"
    by (auto intro: rev_image_eqI)
  from Cons.IH [OF this] p upd show ?case by simp
qed

lemma enumerate_indexes_distinct:
  assumes "distinct vs"
  shows "enumerate_indexes vs = zip vs (map int [0..<length vs])"
proof -
  let ?ps = "zip (map (\<lambda>k. 0 + int k) [0..<length vs]) vs"
  have snd: "map snd ?ps = vs" by simp
  with assms have "fold (\<lambda>(i, v) d. AList.update v i d) ?ps [] = [] @ map (\<lambda>(i, v). (v, i)) ?ps"
    by (intro enumerate_fold) simp_all
  moreover have "map (\<lambda>(i, v). (v, i)) ?ps = zip vs (map int [0..<length vs])"
    by (simp add: zip_map1 zip_commute [of "[0..<length vs]" vs] case_prod_beta comp_def
        zip_map2 map_zip_map)
  ultimately show ?thesis by (simp add: enumerate_indexes_def enumerate_from_def)
qed

lemma wf_SequentialSet:
  "wf_set (SequentialSet xs) \<and> iter (SequentialSet xs) = dict_fromkeys xs"
  by (simp add: SequentialSet_def Let_def wf_set_def iter_def enumerate_indexes_distinct)

lemma wf_DynSet: "wf_set (DynSet xs) \<and> iter (DynSet xs) = dict_fromkeys xs"
  by (simp add: DynSet_def Let_def wf_set_def iter_def enumerate_indexes_distinct)

lemma vals_add:
  assumes "wf_set s"
  shows "wf_set (add s x) \<and> vals (add s x) = oset_add (vals s) x"
proof (cases "x \<in> set (vals s)")
  case True
  with assms show ?thesis using contains_iff [of s x]
    by (simp add: add_def oset_add_def contains_def)
next
  case False
  with assms have absent: "map_of (indexes s) x = None" by (rule wf_set_absent)
  then have "add s x = s\<lparr>vals := vals s @ [x],
      indexes := indexes s @ [(x, int (length (vals s)))]\<rparr>"
    by (simp add: add_def dict_contains_def update_absent)
  with assms False show ?thesis by (simp add: wf_set_snoc oset_add_def)
qed

lemma vals_update:
  "wf_set s \<Longrightarrow> wf_set (update s xs) \<and> vals (update s xs) = oset_update (vals s) xs"
proof (induction xs arbitrary: s)
  case Nil
  then show ?case by (simp add: update_def oset_update_def)
next
  case (Cons x xs)
  from vals_add [OF Cons.prems, of x] Cons.IH [of "add s x"]
  show ?case by (simp add: update_def oset_update_def)
qed

lemma first_occurrence_order:
  "dict_fromkeys (xs @ [x]) = oset_add (dict_fromkeys xs) x"
  by (simp add: dict_fromkeys_def oset_add_def)

lemma vals_push:
  assumes "wf_set s"
  shows "vals (snd (push s x)) = oset_add (vals s) x \<and>
         fst (push s x) = int (position (\<lambda>y. y = x) (vals s))"
proof (cases "x \<in> set (vals s)")
  case False
  have "position (\<lambda>y. y = x) ys = length ys" if "x \<notin> set ys" for ys
    using that by (induction ys) auto
  with False assms show ?thesis by (simp add: push_absent oset_add_def)
next
  case True
  have pos: "position (\<lambda>y. y = x) ys < length ys \<and> ys ! position (\<lambda>y. y = x) ys = x"
    if "x \<in> set ys" for ys
    using that by (induction ys) auto
  from pos [OF True] assms show ?thesis
    using push_present [of s "position (\<lambda>y. y = x) (vals s)"] True
    by (simp add: oset_add_def)
qed

lemma position_present:
  "x \<in> set ys \<Longrightarrow> position (\<lambda>y. y = x) ys < length ys \<and> ys ! position (\<lambda>y. y = x) ys = x"
  by (induction ys) auto

lemma length_delete_present:
  "distinct (map fst al) \<Longrightarrow> map_of al k = Some v \<Longrightarrow> Suc (length (AList.delete k al)) = length al"
proof (induction al)
  case Nil
  then show ?case by simp
next
  case (Cons p al)
  show ?case
  proof (cases "fst p = k")
    case True
    with Cons.prems(1) have "k \<notin> fst ` set al" by auto
    with True show ?thesis by (cases p) (simp add: delete_id)
  next
    case False
    with Cons show ?thesis by (cases p) auto
  qed
qed

lemma norm_index_nat: "k < length xs \<Longrightarrow> norm_index xs (int k) = Some k"
  by (simp add: norm_index_def Let_def)

lemma list_pop_last:
  "xs \<noteq> [] \<Longrightarrow> list_pop xs (- 1) = Some (last xs, butlast xs)"
  by (cases xs rule: rev_cases) (simp_all add: list_pop_def norm_index_def nth_append)

lemma vals_remove:
  assumes wf: "wf_set s" and x: "x \<in> set (vals s)"
  shows "fst (remove s x) = Inr () \<and> vals (snd (remove s x)) = oset_remove (vals s) x"
proof -
  let ?i = "position (\<lambda>y. y = x) (vals s)"
  from position_present [OF x] have i: "?i < length (vals s)" "vals s ! ?i = x" by simp_all
  with wf have look: "map_of (indexes s) x = Some (int ?i)" using wf_set_present [of s ?i] by simp
  from x have ne: "vals s \<noteq> []" by auto
  from wf have "distinct (map fst (indexes s))" by (simp add: wf_set_def)
  from length_delete_present [OF this look] wf_set_length [OF wf]
  have len: "length (AList.delete x (indexes s)) = length (vals s) - 1" by simp
  have blen: "length (butlast (vals s)) = length (vals s) - 1" by simp
  show ?thesis
  proof (cases "?i < length (butlast (vals s))")
    case True
    then have "list_set (butlast (vals s)) (int ?i) (last (vals s)) =
        Some ((butlast (vals s))[?i := last (vals s)])"
      by (simp add: list_set_def norm_index_nat)
    with True look ne len show ?thesis
      by (simp add: remove_def list_pop_last oset_remove_def Let_def)
  next
    case False
    with look ne len i show ?thesis
      by (simp add: remove_def list_pop_last oset_remove_def Let_def)
  qed
qed

lemma wf_remove:
  assumes wf: "wf_set s" and x: "x \<in> set (vals s)"
  shows "wf_set (snd (remove s x))"
proof -
  let ?ys = "vals s"
  let ?n = "length ?ys"
  let ?i = "position (\<lambda>y. y = x) ?ys"
  let ?l = "last ?ys"
  from position_present [OF x] have i: "?i < ?n" "?ys ! ?i = x" by simp_all
  with wf have look: "map_of (indexes s) x = Some (int ?i)" using wf_set_present [of s ?i] by simp
  from x have ne: "?ys \<noteq> []" by auto
  then have l: "?l = ?ys ! (?n - 1)" by (simp add: last_conv_nth)
  from wf have d: "distinct ?ys" and dk: "distinct (map fst (indexes s))"
    by (simp_all add: wf_set_def)
  from length_delete_present [OF dk look] wf_set_length [OF wf]
  have len: "length (AList.delete x (indexes s)) = ?n - 1" by simp
  have idx: "\<And>v j. map_of (indexes s) v = Some j \<longleftrightarrow> (\<exists>k < ?n. j = int k \<and> ?ys ! k = v)"
    using wf by (rule wf_set_lookup)
  have inj: "\<And>a b. a < ?n \<Longrightarrow> b < ?n \<Longrightarrow> ?ys ! a = ?ys ! b \<longleftrightarrow> a = b"
    using d by (simp add: nth_eq_iff_index_eq)
  have at: "k = ?i" if "k < ?n" "?ys ! k = x" for k
    using that i inj [of k ?i] by simp
  show ?thesis
  proof (cases "?i < ?n - 1")
    case False
    with i have last: "?i = ?n - 1" by simp
    from False look ne len have res: "snd (remove s x) =
        s\<lparr>vals := butlast ?ys, indexes := AList.delete x (indexes s)\<rparr>"
      by (simp add: remove_def list_pop_last Let_def)
    have "\<forall>v j. map_of (AList.delete x (indexes s)) v = Some j \<longleftrightarrow>
        (\<exists>k < length (butlast ?ys). j = int k \<and> butlast ?ys ! k = v)"
    proof (intro allI)
      fix v j
      show "map_of (AList.delete x (indexes s)) v = Some j \<longleftrightarrow>
        (\<exists>k < length (butlast ?ys). j = int k \<and> butlast ?ys ! k = v)"
      proof (cases "v = x")
        case True
        have "\<not> (\<exists>k < ?n - 1. ?ys ! k = x)"
        proof
          assume "\<exists>k < ?n - 1. ?ys ! k = x"
          then obtain k where k: "k < ?n - 1" "?ys ! k = x" by blast
          with i inj [of k ?i] have "k = ?i" by simp
          with k last show False by simp
        qed
        then have "\<not> (\<exists>k < length (butlast ?ys). j = int k \<and> butlast ?ys ! k = x)"
          by (auto simp: nth_butlast)
        with True show ?thesis by (simp add: delete_conv')
      next
        case False
        have shrink: "(\<exists>k < ?n. j = int k \<and> ?ys ! k = v) \<longleftrightarrow> (\<exists>k < ?n - 1. j = int k \<and> ?ys ! k = v)"
        proof
          assume "\<exists>k < ?n. j = int k \<and> ?ys ! k = v"
          then obtain k where k: "k < ?n" "j = int k" "?ys ! k = v" by blast
          with False i last have "k \<noteq> ?n - 1" by auto
          with k show "\<exists>k < ?n - 1. j = int k \<and> ?ys ! k = v" by (intro exI [of _ k]) simp
        next
          assume "\<exists>k < ?n - 1. j = int k \<and> ?ys ! k = v"
          then show "\<exists>k < ?n. j = int k \<and> ?ys ! k = v" by auto
        qed
        from False have "map_of (AList.delete x (indexes s)) v = Some j \<longleftrightarrow>
            map_of (indexes s) v = Some j" by simp
        also have "\<dots> \<longleftrightarrow> (\<exists>k < ?n. j = int k \<and> ?ys ! k = v)" by (rule idx)
        also note shrink
        also have "(\<exists>k < ?n - 1. j = int k \<and> ?ys ! k = v) \<longleftrightarrow>
            (\<exists>k < length (butlast ?ys). j = int k \<and> butlast ?ys ! k = v)"
          by (simp add: nth_butlast cong: conj_cong)
        finally show ?thesis .
      qed
    qed
    with d dk res show ?thesis by (simp add: wf_set_iff distinct_butlast distinct_delete)
  next
    case True
    then have "list_set (butlast ?ys) (int ?i) ?l = Some ((butlast ?ys)[?i := ?l])"
      by (simp add: list_set_def norm_index_nat)
    with True look ne len have res: "snd (remove s x) =
        s\<lparr>vals := (butlast ?ys)[?i := ?l],
          indexes := AList.update ?l (int ?i) (AList.delete x (indexes s))\<rparr>"
      by (simp add: remove_def list_pop_last Let_def)
    from ne have nlt: "?n - 1 < ?n" by simp
    from inj [OF i(1) nlt] True have "?ys ! ?i \<noteq> ?ys ! (?n - 1)" by simp
    with i l have lx: "?l \<noteq> x" by simp
    have notlast: "?ys ! k \<noteq> ?l" if "k < ?n - 1" for k
    proof -
      from that have "k < ?n" "k \<noteq> ?n - 1" by simp_all
      with inj [OF this(1) nlt] l show ?thesis by simp
    qed
    from d ne have lnot: "?l \<notin> set (butlast ?ys)"
      by (metis append_butlast_last_id distinct_append disjoint_iff list.set_intros(1))
    have nth': "\<And>k. k < ?n - 1 \<Longrightarrow> (butlast ?ys)[?i := ?l] ! k = (if k = ?i then ?l else ?ys ! k)"
      by (simp add: nth_list_update nth_butlast)
    have dv: "distinct ((butlast ?ys)[?i := ?l])"
      using d lnot by (simp add: distinct_list_update distinct_butlast)
    have "\<forall>v j. map_of (AList.update ?l (int ?i) (AList.delete x (indexes s))) v = Some j \<longleftrightarrow>
        (\<exists>k < length ((butlast ?ys)[?i := ?l]). j = int k \<and> (butlast ?ys)[?i := ?l] ! k = v)"
    proof (intro allI)
      fix v j
      let ?rhs = "\<exists>k < ?n - 1. j = int k \<and> (if k = ?i then ?l else ?ys ! k) = v"
      have "map_of (AList.update ?l (int ?i) (AList.delete x (indexes s))) v = Some j \<longleftrightarrow> ?rhs"
      proof (cases "v = ?l")
        case vl: True
        have "?rhs \<longleftrightarrow> j = int ?i"
        proof
          assume ?rhs
          then obtain k where k: "k < ?n - 1" "j = int k" "(if k = ?i then ?l else ?ys ! k) = v"
            by blast
          show "j = int ?i"
          proof (cases "k = ?i")
            case True
            with k show ?thesis by simp
          next
            case False
            with k vl notlast [OF k(1)] show ?thesis by simp
          qed
        next
          assume "j = int ?i"
          with True vl show ?rhs by (intro exI [of _ ?i]) simp
        qed
        with vl show ?thesis by (auto simp: update_conv')
      next
        case vl: False
        show ?thesis
        proof (cases "v = x")
          case vx: True
          have "\<not> ?rhs"
          proof
            assume ?rhs
            then obtain k where k: "k < ?n - 1" "(if k = ?i then ?l else ?ys ! k) = v" by blast
            show False
            proof (cases "k = ?i")
              case True
              with k vx lx show False by simp
            next
              case False
              moreover from k have "k < ?n" by simp
              ultimately show False using k vx at [of k] by simp
            qed
          qed
          with vl vx show ?thesis by (simp add: update_conv' delete_conv')
        next
          case vx: False
          have "(\<exists>k < ?n. j = int k \<and> ?ys ! k = v) \<longleftrightarrow> ?rhs"
          proof
            assume "\<exists>k < ?n. j = int k \<and> ?ys ! k = v"
            then obtain k where k: "k < ?n" "j = int k" "?ys ! k = v" by blast
            from k vl l have "k \<noteq> ?n - 1" by auto
            moreover from k vx i have "k \<noteq> ?i" by auto
            ultimately show ?rhs using k by (intro exI [of _ k]) simp
          next
            assume ?rhs
            then obtain k where k: "k < ?n - 1" "j = int k" "(if k = ?i then ?l else ?ys ! k) = v"
              by blast
            with vl have "k \<noteq> ?i" by auto
            with k show "\<exists>k < ?n. j = int k \<and> ?ys ! k = v" by (intro exI [of _ k]) simp
          qed
          moreover from vl vx have
            "map_of (AList.update ?l (int ?i) (AList.delete x (indexes s))) v = map_of (indexes s) v"
            by (simp add: update_conv' delete_conv')
          ultimately show ?thesis using idx [of v j] by simp
        qed
      qed
      moreover have "(\<exists>k < length ((butlast ?ys)[?i := ?l]). j = int k \<and> (butlast ?ys)[?i := ?l] ! k = v)
          \<longleftrightarrow> ?rhs"
        by (simp add: nth' cong: conj_cong)
      ultimately show "map_of (AList.update ?l (int ?i) (AList.delete x (indexes s))) v = Some j \<longleftrightarrow>
        (\<exists>k < length ((butlast ?ys)[?i := ?l]). j = int k \<and> (butlast ?ys)[?i := ?l] ! k = v)"
        by simp
    qed
    with dv dk res show ?thesis
      by (simp add: wf_set_iff distinct_update distinct_delete)
  qed
qed

lemma delitem_order:
  "k < length (vals s) \<Longrightarrow>
   vals (snd (delitem s (int k))) = take k (vals s) @ drop (Suc k) (vals s)"
  by (simp add: delitem_def list_pop_def norm_index_nat)

lemma reindex_distinct: "distinct (map fst d) \<Longrightarrow> distinct (map fst (reindex d ps))"
proof -
  have "distinct (map fst d) \<Longrightarrow> distinct (map fst (fold (\<lambda>(i, v) d. AList.update v i d) ps d))"
    by (induction ps arbitrary: d) (auto simp: distinct_update)
  then show "distinct (map fst d) \<Longrightarrow> distinct (map fst (reindex d ps))"
    by (simp add: reindex_def)
qed

lemma reindex_map_of:
  "distinct (map snd ps) \<Longrightarrow>
   map_of (reindex d ps) v = Some j \<longleftrightarrow>
     (j, v) \<in> set ps \<or> (v \<notin> snd ` set ps \<and> map_of d v = Some j)"
  unfolding reindex_def
proof (induction ps arbitrary: d)
  case Nil
  then show ?case by simp
next
  case (Cons p ps)
  obtain i w where p: "p = (i, w)" by (cases p)
  from Cons.prems p have d: "distinct (map snd ps)" and w: "w \<notin> snd ` set ps" by auto
  from Cons.IH [OF d, of "AList.update w i d"] p w show ?case
    by (auto simp: update_conv' rev_image_eqI)
qed

lemma in_enumerate_from:
  "(j, v) \<in> set (enumerate_from i xs) \<longleftrightarrow> (\<exists>m < length xs. j = i + int m \<and> xs ! m = v)"
proof
  assume "(j, v) \<in> set (enumerate_from i xs)"
  then obtain m where "m < length xs" "map (\<lambda>k. i + int k) [0..<length xs] ! m = j" "xs ! m = v"
    by (auto simp: enumerate_from_def in_set_zip)
  then have "m < length xs \<and> j = i + int m \<and> xs ! m = v" by auto
  then show "\<exists>m < length xs. j = i + int m \<and> xs ! m = v" by blast
next
  assume "\<exists>m < length xs. j = i + int m \<and> xs ! m = v"
  then obtain m where m: "m < length xs" "j = i + int m" "xs ! m = v" by blast
  then have "map (\<lambda>k. i + int k) [0..<length xs] ! m = fst (j, v) \<and> xs ! m = snd (j, v) \<and>
      m < length (map (\<lambda>k. i + int k) [0..<length xs]) \<and> m < length xs" by simp
  then show "(j, v) \<in> set (enumerate_from i xs)"
    unfolding enumerate_from_def in_set_zip by blast
qed

lemma wf_delitem:
  assumes wf: "wf_set s" and k: "k < length (vals s)"
  shows "fst (delitem s (int k)) = Inr () \<and> wf_set (snd (delitem s (int k)))"
proof -
  let ?ys = "vals s"
  let ?n = "length ?ys"
  let ?vs = "take k ?ys @ drop (Suc k) ?ys"
  let ?ps = "enumerate_from (int k) (drop (Suc k) ?ys)"
  let ?idx = "reindex (AList.delete (?ys ! k) (indexes s)) ?ps"
  from wf have d: "distinct ?ys" and dk: "distinct (map fst (indexes s))"
    by (simp_all add: wf_set_def)
  from wf k have look: "map_of (indexes s) (?ys ! k) = Some (int k)" by (rule wf_set_present)
  have idx: "\<And>v j. map_of (indexes s) v = Some j \<longleftrightarrow> (\<exists>m < ?n. j = int m \<and> ?ys ! m = v)"
    using wf by (rule wf_set_lookup)
  have inj: "\<And>a b. a < ?n \<Longrightarrow> b < ?n \<Longrightarrow> ?ys ! a = ?ys ! b \<longleftrightarrow> a = b"
    using d by (simp add: nth_eq_iff_index_eq)
  from k have slice: "slice_from ?vs (int k) = drop (Suc k) ?ys"
    by (simp add: slice_from_def clamp_index_def Let_def min_def)
  from k look slice have res: "delitem s (int k) = (Inr (), s\<lparr>vals := ?vs, indexes := ?idx\<rparr>)"
    by (simp add: delitem_def list_pop_def norm_index_nat dict_contains_def)
  have ps_snd: "map snd ?ps = drop (Suc k) ?ys" by (simp add: enumerate_from_def)
  with d have dps: "distinct (map snd ?ps)" by simp
  have in_ps: "(j, v) \<in> set ?ps \<longleftrightarrow>
      (\<exists>m. Suc k + m < ?n \<and> j = int k + int m \<and> ?ys ! (Suc k + m) = v)" for j v
  proof -
    have "(j, v) \<in> set ?ps \<longleftrightarrow>
        (\<exists>m < length (drop (Suc k) ?ys). j = int k + int m \<and> drop (Suc k) ?ys ! m = v)"
      by (rule in_enumerate_from)
    also have "\<dots> \<longleftrightarrow> (\<exists>m. Suc k + m < ?n \<and> j = int k + int m \<and> ?ys ! (Suc k + m) = v)"
    proof
      assume "\<exists>m < length (drop (Suc k) ?ys). j = int k + int m \<and> drop (Suc k) ?ys ! m = v"
      then obtain m where "m < ?n - Suc k" "j = int k + int m" "drop (Suc k) ?ys ! m = v"
        by auto
      then have "Suc k + m < ?n \<and> j = int k + int m \<and> ?ys ! (Suc k + m) = v" by simp
      then show "\<exists>m. Suc k + m < ?n \<and> j = int k + int m \<and> ?ys ! (Suc k + m) = v" ..
    next
      assume "\<exists>m. Suc k + m < ?n \<and> j = int k + int m \<and> ?ys ! (Suc k + m) = v"
      then obtain m where "Suc k + m < ?n" "j = int k + int m" "?ys ! (Suc k + m) = v" by blast
      then have "m < length (drop (Suc k) ?ys) \<and> j = int k + int m \<and> drop (Suc k) ?ys ! m = v"
        by simp
      then show "\<exists>m < length (drop (Suc k) ?ys). j = int k + int m \<and> drop (Suc k) ?ys ! m = v"
        by blast
    qed
    finally show ?thesis .
  qed
  have dv: "distinct ?vs"
    using d by (simp add: set_take_disj_set_drop_if_distinct)
  have nth_vs: "\<And>m. m < ?n - 1 \<Longrightarrow> ?vs ! m = (if m < k then ?ys ! m else ?ys ! Suc m)"
    using k by (auto simp: nth_append min_def)
  have "\<forall>v j. map_of ?idx v = Some j \<longleftrightarrow> (\<exists>m < length ?vs. j = int m \<and> ?vs ! m = v)"
  proof (intro allI)
    fix v j
    have lhs: "map_of ?idx v = Some j \<longleftrightarrow>
        (\<exists>m. Suc k + m < ?n \<and> j = int k + int m \<and> ?ys ! (Suc k + m) = v) \<or>
        (v \<notin> set (drop (Suc k) ?ys) \<and> v \<noteq> ?ys ! k \<and> map_of (indexes s) v = Some j)"
      using reindex_map_of [OF dps, of "AList.delete (?ys ! k) (indexes s)" v j] ps_snd
      by (auto simp: in_ps delete_conv' simp flip: set_map)
    have rhs: "(\<exists>m < length ?vs. j = int m \<and> ?vs ! m = v) \<longleftrightarrow>
        (\<exists>m < ?n - 1. j = int m \<and> (if m < k then ?ys ! m else ?ys ! Suc m) = v)"
      using k by (simp add: nth_vs min_def cong: conj_cong)
    have after: "(\<exists>m. Suc k + m < ?n \<and> j = int k + int m \<and> ?ys ! (Suc k + m) = v) \<longleftrightarrow>
        (\<exists>m < ?n - 1. k \<le> m \<and> j = int m \<and> ?ys ! Suc m = v)"
    proof
      assume "\<exists>m. Suc k + m < ?n \<and> j = int k + int m \<and> ?ys ! (Suc k + m) = v"
      then obtain m where "Suc k + m < ?n" "j = int k + int m" "?ys ! (Suc k + m) = v" by blast
      then show "\<exists>m < ?n - 1. k \<le> m \<and> j = int m \<and> ?ys ! Suc m = v"
        by (intro exI [of _ "k + m"]) auto
    next
      assume "\<exists>m < ?n - 1. k \<le> m \<and> j = int m \<and> ?ys ! Suc m = v"
      then obtain m where "m < ?n - 1" "k \<le> m" "j = int m" "?ys ! Suc m = v" by blast
      then show "\<exists>m. Suc k + m < ?n \<and> j = int k + int m \<and> ?ys ! (Suc k + m) = v"
        by (intro exI [of _ "m - k"]) auto
    qed
    have before: "(v \<notin> set (drop (Suc k) ?ys) \<and> v \<noteq> ?ys ! k \<and> map_of (indexes s) v = Some j) \<longleftrightarrow>
        (\<exists>m < ?n - 1. m < k \<and> j = int m \<and> ?ys ! m = v)"
    proof
      assume a: "v \<notin> set (drop (Suc k) ?ys) \<and> v \<noteq> ?ys ! k \<and> map_of (indexes s) v = Some j"
      with idx obtain m where m: "m < ?n" "j = int m" "?ys ! m = v" by blast
      have "\<not> Suc k \<le> m"
      proof
        assume "Suc k \<le> m"
        with m have "m - Suc k < length (drop (Suc k) ?ys)"
          and "drop (Suc k) ?ys ! (m - Suc k) = ?ys ! m" by simp_all
        then have "?ys ! m \<in> set (drop (Suc k) ?ys)" by (metis nth_mem)
        with a m show False by simp
      qed
      moreover from a m have "m \<noteq> k" by auto
      ultimately have "m < k" by simp
      with m k show "\<exists>m < ?n - 1. m < k \<and> j = int m \<and> ?ys ! m = v"
        by (intro exI [of _ m]) simp
    next
      assume "\<exists>m < ?n - 1. m < k \<and> j = int m \<and> ?ys ! m = v"
      then obtain m where m: "m < ?n - 1" "m < k" "j = int m" "?ys ! m = v" by blast
      then have mn: "m < ?n" by simp
      with m idx have "map_of (indexes s) v = Some j" by blast
      moreover from m mn k inj [of m k] have "v \<noteq> ?ys ! k" by auto
      moreover have "v \<notin> set (drop (Suc k) ?ys)"
      proof
        assume "v \<in> set (drop (Suc k) ?ys)"
        then obtain q where q: "q < ?n - Suc k" "drop (Suc k) ?ys ! q = v"
          by (auto simp: in_set_conv_nth)
        then have eq: "?ys ! (Suc k + q) = ?ys ! m" using m by simp
        from q have "Suc k + q < ?n" by simp
        from inj [OF this mn] eq m show False by simp
      qed
      ultimately show "v \<notin> set (drop (Suc k) ?ys) \<and> v \<noteq> ?ys ! k \<and> map_of (indexes s) v = Some j"
        by simp
    qed
    have "(\<exists>m < ?n - 1. j = int m \<and> (if m < k then ?ys ! m else ?ys ! Suc m) = v) \<longleftrightarrow>
        (\<exists>m < ?n - 1. k \<le> m \<and> j = int m \<and> ?ys ! Suc m = v) \<or>
        (\<exists>m < ?n - 1. m < k \<and> j = int m \<and> ?ys ! m = v)"
    proof
      assume "\<exists>m < ?n - 1. j = int m \<and> (if m < k then ?ys ! m else ?ys ! Suc m) = v"
      then obtain m where m: "m < ?n - 1" "j = int m" "(if m < k then ?ys ! m else ?ys ! Suc m) = v"
        by blast
      show "(\<exists>m < ?n - 1. k \<le> m \<and> j = int m \<and> ?ys ! Suc m = v) \<or>
        (\<exists>m < ?n - 1. m < k \<and> j = int m \<and> ?ys ! m = v)"
      proof (cases "m < k")
        case True
        with m have "m < ?n - 1 \<and> m < k \<and> j = int m \<and> ?ys ! m = v" by simp
        then show ?thesis by blast
      next
        case False
        with m have "m < ?n - 1 \<and> k \<le> m \<and> j = int m \<and> ?ys ! Suc m = v" by simp
        then show ?thesis by blast
      qed
    next
      assume "(\<exists>m < ?n - 1. k \<le> m \<and> j = int m \<and> ?ys ! Suc m = v) \<or>
        (\<exists>m < ?n - 1. m < k \<and> j = int m \<and> ?ys ! m = v)"
      then show "\<exists>m < ?n - 1. j = int m \<and> (if m < k then ?ys ! m else ?ys ! Suc m) = v"
      proof
        assume "\<exists>m < ?n - 1. k \<le> m \<and> j = int m \<and> ?ys ! Suc m = v"
        then obtain m where "m < ?n - 1" "k \<le> m" "j = int m" "?ys ! Suc m = v" by blast
        then have "m < ?n - 1 \<and> j = int m \<and> (if m < k then ?ys ! m else ?ys ! Suc m) = v"
          by simp
        then show ?thesis by blast
      next
        assume "\<exists>m < ?n - 1. m < k \<and> j = int m \<and> ?ys ! m = v"
        then obtain m where "m < ?n - 1" "m < k" "j = int m" "?ys ! m = v" by blast
        then have "m < ?n - 1 \<and> j = int m \<and> (if m < k then ?ys ! m else ?ys ! Suc m) = v"
          by simp
        then show ?thesis by blast
      qed
    qed
    with lhs rhs after before
    show "map_of ?idx v = Some j \<longleftrightarrow> (\<exists>m < length ?vs. j = int m \<and> ?vs ! m = v)" by simp
  qed
  moreover from dk have "distinct (map fst ?idx)"
    by (intro reindex_distinct) (simp add: distinct_delete)
  ultimately have "wf_set (s\<lparr>vals := ?vs, indexes := ?idx\<rparr>)" using dv by (simp add: wf_set_iff)
  with res show ?thesis by simp
qed

end
